theory Spec2Isabelle
  imports Complex_Main
begin

section \<open>Adaptive quantization field estimator of the JPEG XL encoder\<close>

text \<open>
  This development embeds the scalar search helpers and the image passes of
  \<^verbatim>\<open>jxl/enc_adaptive_quantization.cc\<close> (kept as \<^verbatim>\<open>src/unnamed/part_000\<close>).

  Number model. The C++ computes in \<^verbatim>\<open>float\<close>. The functions whose properties
  depend on rounding, overflow or NaN are embedded in binary32 arithmetic, the
  type \<open>f32\<close> of the next subsection: \<^verbatim>\<open>AdjustQuantVal\<close>. In every other function
  a \<^verbatim>\<open>float\<close> or \<^verbatim>\<open>double\<close> is a \<^typ>\<open>real\<close>: comparisons, \<^verbatim>\<open>std::min\<close>,
  \<^verbatim>\<open>std::max\<close>, copies and the algebraic shape of each formula are kept exactly as
  written, while rounding to 24 or 53 bits, overflow to infinity and NaN are not
  represented there.
  Loop counters and image coordinates (\<^verbatim>\<open>size_t\<close>, \<^verbatim>\<open>int\<close>) are \<^typ>\<open>nat\<close> and
  \<^typ>\<open>int\<close>; images are far below \<open>2^31\<close> cells per side, so the conversions
  between the two C++ types are the identity on the values that occur, apart from
  the single unsigned addition in \<^verbatim>\<open>DistToPeakMap\<close>, whose wrap-around is
  written out.
\<close>

subsection \<open>Binary32 arithmetic\<close>

text \<open>
  A binary32 value is a finite number \<open>Fin r\<close> (with \<open>Fin 0\<close> the positive zero),
  the negative zero, an infinity or NaN. \<open>rnd\<close> rounds a real to the nearest
  number with a 24-bit significand and exponent at least \<open>-126\<close>, ties to even
  (\<open>expo\<close> is the exponent of the binade, \<open>ulp\<close> the spacing in it); \<open>pack\<close> turns
  an exact result into a value: a rounded magnitude of \<open>2^128\<close> or more is an
  infinity, a zero takes the sign of the exact result, or the sign \<open>s\<close> where
  the exact result is zero. Each operation below rounds once, as IEEE 754
  prescribes, and is total on all five kinds of value.
\<close>

datatype f32 = Fin real | NegZero | PInf | NInf | NaN

definition expo :: "real \<Rightarrow> int" where
  "expo x = max \<lfloor>log 2 \<bar>x\<bar>\<rfloor> (- 126)"

definition ulp :: "real \<Rightarrow> real" where
  "ulp x = 2 powi (expo x - 23)"

definition rne :: "real \<Rightarrow> int" where
  "rne r =
     (let f = \<lfloor>r\<rfloor>; d = r - of_int f
      in if d < 1 / 2 then f else if 1 / 2 < d then f + 1 else if even f then f else f + 1)"

definition rnd :: "real \<Rightarrow> real" where
  "rnd x = of_int (rne (x / ulp x)) * ulp x"

definition huge32 :: real where
  "huge32 = 2 ^ 128"

fun finite32 :: "f32 \<Rightarrow> bool" where
  "finite32 (Fin r) = True"
| "finite32 NegZero = True"
| "finite32 PInf = False"
| "finite32 NInf = False"
| "finite32 NaN = False"

fun val :: "f32 \<Rightarrow> real" where
  "val (Fin r) = r"
| "val NegZero = 0"
| "val PInf = 0"
| "val NInf = 0"
| "val NaN = 0"

fun signbit :: "f32 \<Rightarrow> bool" where
  "signbit (Fin r) = (r < 0)"
| "signbit NegZero = True"
| "signbit PInf = False"
| "signbit NInf = True"
| "signbit NaN = False"

fun rank :: "f32 \<Rightarrow> real" where
  "rank (Fin r) = r"
| "rank NegZero = 0"
| "rank PInf = huge32"
| "rank NInf = - huge32"
| "rank NaN = 0"

text \<open>
  Comparisons (\<^verbatim>\<open><\<close>, \<^verbatim>\<open><=\<close>, \<^verbatim>\<open>>\<close>, \<^verbatim>\<open>>=\<close>) are false on NaN and do not tell the two
  zeros apart; \<open>rank\<close> places the infinities at \<open>\<plusminus> 2^128\<close>, outside every finite
  binary32 number.
\<close>

definition flt :: "f32 \<Rightarrow> f32 \<Rightarrow> bool" where
  "flt a b \<longleftrightarrow> a \<noteq> NaN \<and> b \<noteq> NaN \<and> rank a < rank b"

definition fle :: "f32 \<Rightarrow> f32 \<Rightarrow> bool" where
  "fle a b \<longleftrightarrow> a \<noteq> NaN \<and> b \<noteq> NaN \<and> rank a \<le> rank b"

definition fgt :: "f32 \<Rightarrow> f32 \<Rightarrow> bool" where
  "fgt a b = flt b a"

definition fge :: "f32 \<Rightarrow> f32 \<Rightarrow> bool" where
  "fge a b = fle b a"

definition inf32 :: "bool \<Rightarrow> f32" where
  "inf32 s = (if s then NInf else PInf)"

definition zero32 :: "bool \<Rightarrow> f32" where
  "zero32 s = (if s then NegZero else Fin 0)"

definition pack :: "bool \<Rightarrow> real \<Rightarrow> f32" where
  "pack s x =
     (let r = rnd x
      in if huge32 \<le> r then PInf
         else if r \<le> - huge32 then NInf
         else if r = 0 then zero32 (x < 0 \<or> (x = 0 \<and> s))
         else Fin r)"

text \<open>A decimal literal of the source, converted to \<^verbatim>\<open>float\<close>.\<close>

definition lit :: "real \<Rightarrow> f32" where
  "lit x = pack False x"

fun fneg :: "f32 \<Rightarrow> f32" where
  "fneg (Fin r) = (if r = 0 then NegZero else Fin (- r))"
| "fneg NegZero = Fin 0"
| "fneg PInf = NInf"
| "fneg NInf = PInf"
| "fneg NaN = NaN"

fun fabs :: "f32 \<Rightarrow> f32" where
  "fabs (Fin r) = Fin \<bar>r\<bar>"
| "fabs NegZero = Fin 0"
| "fabs PInf = PInf"
| "fabs NInf = PInf"
| "fabs NaN = NaN"

definition fadd :: "f32 \<Rightarrow> f32 \<Rightarrow> f32" where
  "fadd a b =
     (if a = NaN \<or> b = NaN then NaN
      else if \<not> finite32 a then (if \<not> finite32 b \<and> b \<noteq> a then NaN else a)
      else if \<not> finite32 b then b
      else pack (signbit a \<and> signbit b) (val a + val b))"

definition fsub :: "f32 \<Rightarrow> f32 \<Rightarrow> f32" where
  "fsub a b = fadd a (fneg b)"

definition fmul :: "f32 \<Rightarrow> f32 \<Rightarrow> f32" where
  "fmul a b =
     (if a = NaN \<or> b = NaN then NaN
      else if \<not> finite32 a \<or> \<not> finite32 b then
        (if (finite32 a \<and> val a = 0) \<or> (finite32 b \<and> val b = 0) then NaN
         else inf32 (signbit a \<noteq> signbit b))
      else pack (signbit a \<noteq> signbit b) (val a * val b))"

definition fdiv :: "f32 \<Rightarrow> f32 \<Rightarrow> f32" where
  "fdiv a b =
     (if a = NaN \<or> b = NaN then NaN
      else if \<not> finite32 a then (if \<not> finite32 b then NaN else inf32 (signbit a \<noteq> signbit b))
      else if \<not> finite32 b then zero32 (signbit a \<noteq> signbit b)
      else if val b = 0 then (if val a = 0 then NaN else inf32 (signbit a \<noteq> signbit b))
      else pack (signbit a \<noteq> signbit b) (val a / val b))"

definition fsqrt :: "f32 \<Rightarrow> f32" where
  "fsqrt a =
     (if a = NaN then NaN
      else if a = NegZero then NegZero
      else if signbit a then NaN
      else if a = PInf then PInf
      else pack False (sqrt (val a)))"

text \<open>The fused multiply-add \<open>a * b + c\<close>, rounded once.\<close>

definition ffma :: "f32 \<Rightarrow> f32 \<Rightarrow> f32 \<Rightarrow> f32" where
  "ffma a b c =
     (if a = NaN \<or> b = NaN \<or> c = NaN then NaN
      else if \<not> finite32 a \<or> \<not> finite32 b then fadd (fmul a b) c
      else if \<not> finite32 c then c
      else pack ((signbit a \<noteq> signbit b) \<and> signbit c) (val a * val b + val c))"

text \<open>
  \<^verbatim>\<open>std::min(a, b)\<close> is \<^verbatim>\<open>(b < a) ? b : a\<close> and \<^verbatim>\<open>std::max(a, b)\<close> is
  \<^verbatim>\<open>(a < b) ? b : a\<close>.
\<close>

definition std_min :: "f32 \<Rightarrow> f32 \<Rightarrow> f32" where
  "std_min a b = (if flt b a then b else a)"

definition std_max :: "f32 \<Rightarrow> f32 \<Rightarrow> f32" where
  "std_max a b = (if flt a b then b else a)"

text \<open>
  The values of the type that are binary32 numbers: a finite one is its own
  rounding and lies below \<open>2^128\<close> in magnitude.
\<close>

fun is_f32 :: "f32 \<Rightarrow> bool" where
  "is_f32 (Fin r) = (rnd r = r \<and> \<bar>r\<bar> < huge32)"
| "is_f32 NegZero = True"
| "is_f32 PInf = True"
| "is_f32 NInf = True"
| "is_f32 NaN = True"

subsection \<open>AdjustQuantVal\<close>

text \<open>
  \<^verbatim>\<open>bool AdjustQuantVal(float* q, float d, float factor, float quant_max)\<close>:
  the pointer argument becomes state passing, the result is the returned flag
  together with the new content of \<^verbatim>\<open>*q\<close>.
\<close>

definition AdjustQuantVal :: "f32 \<Rightarrow> f32 \<Rightarrow> f32 \<Rightarrow> f32 \<Rightarrow> bool \<times> f32" where
  "AdjustQuantVal q d factor quant_max =
     (if fge q (fmul (lit 0.999) quant_max) then (False, q)
      else
        let inv_q = fdiv (Fin 1) q;
            adj_inv_q = fsub inv_q (fdiv factor (fadd d (Fin 1)))
        in (True, fdiv (Fin 1) (std_max (fdiv (Fin 1) quant_max) adj_inv_q)))"


subsection \<open>Images and the AC strategy\<close>

text \<open>
  \<^verbatim>\<open>ImageF\<close> is \<^verbatim>\<open>Plane<float>\<close>: a plane of cells with its pixel dimensions;
  \<open>Row img y x\<close> reads \<^verbatim>\<open>img.Row(y)[x]\<close>. The cells are reals (\<open>ImageF\<close>) or
  binary32 values (\<open>f32 Plane\<close>), by the number model of the function. Rows are addressed by coordinates; the stride arithmetic of
  \<^verbatim>\<open>quant_row[x + ix + iy * stride]\<close> is the cell \<open>(x + ix, y + iy)\<close>.
\<close>

record 'a Plane =
  xsize :: nat
  ysize :: nat
  Row :: "nat \<Rightarrow> nat \<Rightarrow> 'a"

type_synonym ImageF = "real Plane"

text \<open>\<^verbatim>\<open>row[x] = v\<close> on row \<open>y\<close> of a pixel array.\<close>

definition store :: "(nat \<Rightarrow> nat \<Rightarrow> 'a) \<Rightarrow> nat \<Rightarrow> nat \<Rightarrow> 'a \<Rightarrow> (nat \<Rightarrow> nat \<Rightarrow> 'a)" where
  "store r y x v = r(y := (r y)(x := v))"

text \<open>
  Modelled from the spec: the class \<^verbatim>\<open>AcStrategy\<close> and \<^verbatim>\<open>AcStrategyImage\<close> of
  \<^verbatim>\<open>jxl/ac_strategy.h\<close>, which is not among the sources. The spec gives the
  interface \<^verbatim>\<open>const_row(by)[bx] -> { is_first_block, covered_blocks_x,
  covered_blocks_y, raw_strategy }\<close>; the raw strategy tag plays no role in the
  functions embedded here.
\<close>

record AcStrategy =
  IsFirstBlock :: bool
  covered_blocks_x :: nat
  covered_blocks_y :: nat

type_synonym AcStrategyImage = "nat \<Rightarrow> nat \<Rightarrow> AcStrategy"

text \<open>A counted \<^verbatim>\<open>for (v = lo; v < hi; ++v)\<close> loop over a state.\<close>

definition for_loop :: "nat \<Rightarrow> nat \<Rightarrow> (nat \<Rightarrow> 's \<Rightarrow> 's) \<Rightarrow> 's \<Rightarrow> 's" where
  "for_loop lo hi body s = fold body [lo..<hi] s"

subsection \<open>FindBestQuantizationMaxError: the per-block multiplier\<close>

definition kBlockDim :: nat where
  "kBlockDim = 8"

text \<open>
  \<^verbatim>\<open>Image3F\<close>: three planes of one size; \<open>PlaneRow img c y x\<close> reads
  \<^verbatim>\<open>img.ConstPlaneRow(c, y)[x]\<close>.
\<close>

record 'a Image3 =
  xsize3 :: nat
  ysize3 :: nat
  PlaneRow :: "nat \<Rightarrow> nat \<Rightarrow> nat \<Rightarrow> 'a"

type_synonym Image3F = "real Image3"

text \<open>
  The three nested loops that accumulate \<^verbatim>\<open>max_error\<close> for the varblock at
  \<open>(bx, by)\<close>, starting from \<open>0\<close>; rows and columns outside the decoded image
  are skipped by \<^verbatim>\<open>continue\<close>.
\<close>

definition BlockMaxError ::
  "Image3F \<Rightarrow> Image3F \<Rightarrow> (nat \<Rightarrow> real) \<Rightarrow> AcStrategy \<Rightarrow> nat \<Rightarrow> nat \<Rightarrow> real" where
  "BlockMaxError opsin decoded inv_max_err acs bx by =
     for_loop 0 3 (\<lambda>c.
       for_loop (by * kBlockDim) ((by + covered_blocks_y acs) * kBlockDim) (\<lambda>y max_error.
         if y \<ge> ysize3 decoded then max_error
         else
           for_loop (bx * kBlockDim) ((bx + covered_blocks_x acs) * kBlockDim) (\<lambda>x max_error.
             if x \<ge> xsize3 decoded then max_error
             else max (\<bar>PlaneRow opsin c y x - PlaneRow decoded c y x\<bar> * inv_max_err c) max_error)
           max_error)) 0"

definition qf_mul :: "real \<Rightarrow> real" where
  "qf_mul max_error =
     (if max_error < 0.5 then max_error * 2.0
      else if max_error > 1.0 then max_error else 1.0)"

text \<open>\<^verbatim>\<open>quant_field_row[qx] *= qf_mul\<close> over the cells the varblock covers.\<close>

definition ScaleBlock :: "AcStrategy \<Rightarrow> nat \<Rightarrow> nat \<Rightarrow> real \<Rightarrow> (nat \<Rightarrow> nat \<Rightarrow> real) \<Rightarrow> (nat \<Rightarrow> nat \<Rightarrow> real)" where
  "ScaleBlock acs bx by m q =
     for_loop by (by + covered_blocks_y acs) (\<lambda>qy.
       for_loop bx (bx + covered_blocks_x acs) (\<lambda>qx q. store q qy qx (q qy qx * m))) q"

text \<open>
  One iteration of the search after the roundtrip produced \<open>decoded\<close>: every
  first block rescales its cells by the multiplier of its own error.
\<close>

definition MaxErrorPass ::
  "AcStrategyImage \<Rightarrow> Image3F \<Rightarrow> Image3F \<Rightarrow> (nat \<Rightarrow> real) \<Rightarrow> nat \<Rightarrow> nat \<Rightarrow>
   (nat \<Rightarrow> nat \<Rightarrow> real) \<Rightarrow> (nat \<Rightarrow> nat \<Rightarrow> real)" where
  "MaxErrorPass ac_strategy opsin decoded inv_max_err xsize_blocks ysize_blocks quant_field =
     for_loop 0 ysize_blocks (\<lambda>by.
       for_loop 0 xsize_blocks (\<lambda>bx q.
         let acs = ac_strategy by bx in
         if \<not> IsFirstBlock acs then q
         else ScaleBlock acs bx by
                (qf_mul (BlockMaxError opsin decoded inv_max_err acs bx by)) q)) quant_field"

subsection \<open>InitialQuantDC\<close>

definition kDcQuantPow :: real where
  "kDcQuantPow = 0.55"

definition kDcQuant :: real where
  "kDcQuant = 1.18"

definition kAcQuant :: real where
  "kAcQuant = 0.84"

text \<open>
  \<^verbatim>\<open>std::pow\<close> on a non-negative base is \<open>powr\<close> (both give \<open>0\<close> at base \<open>0\<close>
  for the positive exponent used here).
\<close>

definition InitialQuantDC :: "real \<Rightarrow> real" where
  "InitialQuantDC butteraugli_target =
     (let kDcMul = 2.9;
          butteraugli_target_dc =
            min butteraugli_target
                (kDcMul * ((1.0 / kDcMul) * butteraugli_target) powr kDcQuantPow)
      in min (kDcQuant / butteraugli_target_dc) 50)"

subsection \<open>FindBestQuantization: the clamp range and the update step\<close>

text \<open>
  Modelled from the spec: \<^verbatim>\<open>ImageMinMax\<close> of \<^verbatim>\<open>jxl/image_ops.h\<close>, which is not
  among the sources; the spec writes \<^verbatim>\<open>(qf_min, qf_max) = min/max(field)\<close>. The
  scan starts from the first cell and folds \<^verbatim>\<open>std::min\<close> and \<^verbatim>\<open>std::max\<close>.
\<close>

definition ImageMinMax :: "f32 Plane \<Rightarrow> f32 \<times> f32" where
  "ImageMinMax img =
     for_loop 0 (ysize img) (\<lambda>y.
       for_loop 0 (xsize img) (\<lambda>x (mn, mx).
         (std_min mn (Row img y x), std_max mx (Row img y x))))
       (Row img 0 0, Row img 0 0)"

text \<open>
  The set-up of \<^verbatim>\<open>FindBestQuantization\<close> up to
  \<^verbatim>\<open>JXL_ASSERT(qf_higher / qf_lower < 253)\<close>, in binary32 arithmetic; the integer
  literals \<^verbatim>\<open>250\<close>, \<^verbatim>\<open>2\<close> and \<^verbatim>\<open>253\<close> are converted to \<^verbatim>\<open>float\<close> and
  \<^verbatim>\<open>std::sqrt\<close> is the correctly rounded square root. A failed assertion aborts
  the encoder: the result is \<open>None\<close>; otherwise the clamp range
  \<open>(qf_lower, qf_higher)\<close> is returned.
\<close>

definition QuantFieldRange :: "f32 Plane \<Rightarrow> (f32 \<times> f32) option" where
  "QuantFieldRange initial_quant_field =
     (let (initial_qf_min, initial_qf_max) = ImageMinMax initial_quant_field;
          initial_qf_ratio = fdiv initial_qf_max initial_qf_min;
          qf_max_deviation_low = fsqrt (fdiv (Fin 250) initial_qf_ratio);
          asymmetry = (if flt qf_max_deviation_low (Fin 2) then qf_max_deviation_low else Fin 2);
          qf_lower = fdiv initial_qf_min (fmul asymmetry qf_max_deviation_low);
          qf_higher = fmul initial_qf_max (fdiv qf_max_deviation_low asymmetry)
      in if flt (fdiv qf_higher qf_lower) (Fin 253) then Some (qf_lower, qf_higher) else None)"

definition kPow :: "real list" where
  "kPow = [0.2, 0.2, 0.0, 0.0, 0.0, 0.0, 0.0, 0.0]"

definition kPowMod :: "real list" where
  "kPowMod = [0.0, 0.0, 0.0, 0.0, 0.0, 0.0, 0.0, 0.0]"

text \<open>The exponent of iteration \<open>i\<close> (\<open>i\<close> counts up from \<open>0\<close>).\<close>

definition cur_pow :: "nat \<Rightarrow> real \<Rightarrow> real" where
  "cur_pow i butteraugli_target =
     (if i < 7 then
        (let p = kPow ! i + (butteraugli_target - 1.0) * kPowMod ! i
         in if p < 0 then 0 else p)
      else 0.0)"

text \<open>The conversion \<^verbatim>\<open>int v = <floating value>\<close> truncates towards zero.\<close>

definition float_to_int :: "real \<Rightarrow> int" where
  "float_to_int v = (if 0 \<le> v then \<lfloor>v\<rfloor> else \<lceil>v\<rceil>)"

text \<open>
  The body of \<^verbatim>\<open>if (diff > 1.0f) { ... }\<close>, the same text in both branches of
  the update: scale the cell by \<open>diff\<close>, and step by one quantizer unit when the
  scaled value would round to the same raw quant. \<^verbatim>\<open>InvGlobalScale()\<close> and
  \<^verbatim>\<open>Scale()\<close> of the quantizer are parameters.
\<close>

definition RaiseQuant :: "real \<Rightarrow> real \<Rightarrow> real \<Rightarrow> real \<Rightarrow> real" where
  "RaiseQuant InvGlobalScale Scale diff q =
     (let old = q;
          q' = q * diff;
          qf_old = float_to_int (old * InvGlobalScale + 0.5);
          qf_new = float_to_int (q' * InvGlobalScale + 0.5)
      in if qf_old = qf_new then old + Scale else q')"

text \<open>
  \<^verbatim>\<open>if (row_q[x] > qf_higher) row_q[x] = qf_higher;
  if (row_q[x] < qf_lower) row_q[x] = qf_lower;\<close>
\<close>

definition ClampQuant :: "real \<Rightarrow> real \<Rightarrow> real \<Rightarrow> real" where
  "ClampQuant qf_lower qf_higher q =
     (let q1 = (if q > qf_higher then qf_higher else q)
      in if q1 < qf_lower then qf_lower else q1)"

text \<open>
  The update that closes iteration \<open>i\<close>: the \<^verbatim>\<open>cur_pow == 0.0\<close> loop or the
  \<^verbatim>\<open>else\<close> loop over all cells. \<^verbatim>\<open>std::pow(diff, cur_pow)\<close> is \<open>powr\<close>; tile
  distances are not negative.
\<close>

definition UpdateStep ::
  "nat \<Rightarrow> real \<Rightarrow> real \<Rightarrow> real \<Rightarrow> real \<Rightarrow> real \<Rightarrow> ImageF \<Rightarrow> ImageF \<Rightarrow> ImageF" where
  "UpdateStep i InvGlobalScale Scale qf_lower qf_higher butteraugli_target tile_distmap quant_field =
     (let cp = cur_pow i butteraugli_target in
      if cp = 0.0 then
        quant_field\<lparr>Row :=
          for_loop 0 (ysize quant_field) (\<lambda>y.
            for_loop 0 (xsize quant_field) (\<lambda>x row_q.
              let diff = Row tile_distmap y x / butteraugli_target in
              store row_q y x
                (ClampQuant qf_lower qf_higher
                   (if diff > 1.0 then RaiseQuant InvGlobalScale Scale diff (row_q y x)
                    else row_q y x))))
            (Row quant_field)\<rparr>
      else
        quant_field\<lparr>Row :=
          for_loop 0 (ysize quant_field) (\<lambda>y.
            for_loop 0 (xsize quant_field) (\<lambda>x row_q.
              let diff = Row tile_distmap y x / butteraugli_target in
              store row_q y x
                (ClampQuant qf_lower qf_higher
                   (if diff \<le> 1.0 then row_q y x * diff powr cp
                    else RaiseQuant InvGlobalScale Scale diff (row_q y x)))))
            (Row quant_field)\<rparr>)"

subsection \<open>AdjustQuantField\<close>

text \<open>
  The first pair of inner loops: the running maximum over the cells of the
  block at \<open>(x, y)\<close>, seeded with \<^verbatim>\<open>quant_row[x]\<close>.
\<close>

definition BlockMax :: "AcStrategy \<Rightarrow> nat \<Rightarrow> nat \<Rightarrow> (nat \<Rightarrow> nat \<Rightarrow> real) \<Rightarrow> real" where
  "BlockMax acs x y q =
     for_loop 0 (covered_blocks_y acs) (\<lambda>iy.
       for_loop 0 (covered_blocks_x acs) (\<lambda>ix m. max (q (y + iy) (x + ix)) m)) (q y x)"

text \<open>The second pair of inner loops: every cell of the block receives \<open>m\<close>.\<close>

definition FillBlock ::
  "AcStrategy \<Rightarrow> nat \<Rightarrow> nat \<Rightarrow> real \<Rightarrow> (nat \<Rightarrow> nat \<Rightarrow> real) \<Rightarrow> (nat \<Rightarrow> nat \<Rightarrow> real)" where
  "FillBlock acs x y m q =
     for_loop 0 (covered_blocks_y acs) (\<lambda>iy.
       for_loop 0 (covered_blocks_x acs) (\<lambda>ix q. store q (y + iy) (x + ix) m)) q"

text \<open>
  \<^verbatim>\<open>void AdjustQuantField(const AcStrategyImage&, ImageF* quant_field)\<close>. The
  field is updated in place, here it is returned; a failed \<^verbatim>\<open>JXL_ASSERT\<close> aborts
  the encoder, which is the result \<open>None\<close>.
\<close>

definition AdjustQuantField :: "AcStrategyImage \<Rightarrow> ImageF \<Rightarrow> ImageF option" where
  "AdjustQuantField ac_strategy quant_field =
     map_option (\<lambda>r. quant_field\<lparr>Row := r\<rparr>)
       (for_loop 0 (ysize quant_field) (\<lambda>y.
          for_loop 0 (xsize quant_field) (\<lambda>x st.
            case st of
              None \<Rightarrow> None
            | Some q \<Rightarrow>
                let acs = ac_strategy y x in
                if \<not> IsFirstBlock acs then Some q
                else if \<not> x + covered_blocks_x acs \<le> xsize quant_field then None
                else if \<not> y + covered_blocks_y acs \<le> ysize quant_field then None
                else Some (FillBlock acs x y (BlockMax acs x y q) q)))
          (Some (Row quant_field)))"

text \<open>
  Modelled from the spec: what makes a grid of \<^verbatim>\<open>AcStrategy\<close> values an AC
  strategy. The spec describes it as the "per-block choice of which transform
  covers a region; marked by \<^verbatim>\<open>is_first_block\<close> at its corner and its
  \<^verbatim>\<open>covered_blocks_{x,y}\<close> extent": the rectangles of the first blocks lie
  inside the \<open>W \<times> H\<close> block grid and no two of them overlap.
\<close>

definition BlocksInBounds :: "AcStrategyImage \<Rightarrow> nat \<Rightarrow> nat \<Rightarrow> bool" where
  "BlocksInBounds ac W H \<longleftrightarrow>
     (\<forall>by<H. \<forall>bx<W. IsFirstBlock (ac by bx) \<longrightarrow>
        bx + covered_blocks_x (ac by bx) \<le> W \<and> by + covered_blocks_y (ac by bx) \<le> H)"

definition BlocksDisjoint :: "AcStrategyImage \<Rightarrow> nat \<Rightarrow> nat \<Rightarrow> bool" where
  "BlocksDisjoint ac W H \<longleftrightarrow>
     (\<forall>by<H. \<forall>bx<W. \<forall>by'<H. \<forall>bx'<W.
        IsFirstBlock (ac by bx) \<and> IsFirstBlock (ac by' bx') \<and> (bx \<noteq> bx' \<or> by \<noteq> by') \<longrightarrow>
        bx + covered_blocks_x (ac by bx) \<le> bx' \<or> bx' + covered_blocks_x (ac by' bx') \<le> bx \<or>
        by + covered_blocks_y (ac by bx) \<le> by' \<or> by' + covered_blocks_y (ac by' bx') \<le> by)"

text \<open>The cells that the block with corner \<open>(bx, by)\<close> covers.\<close>

definition covered :: "AcStrategyImage \<Rightarrow> nat \<Rightarrow> nat \<Rightarrow> (nat \<times> nat) set" where
  "covered ac bx by =
     {(y, x). by \<le> y \<and> y < by + covered_blocks_y (ac by bx) \<and>
              bx \<le> x \<and> x < bx + covered_blocks_x (ac by bx)}"

subsection \<open>DiffPrecompute\<close>

definition kSGmul :: real where
  "kSGmul = 200"

definition kSGmul2 :: real where
  "kSGmul2 = 1.0 / 74"

definition kLog2 :: real where
  "kLog2 = 0.693147181"

definition kSGRetMul :: real where
  "kSGRetMul = kSGmul2 * 18.6580932135 * kLog2"

definition kSGVOffset :: real where
  "kSGVOffset = 7.14672470003"

text \<open>
  \<^verbatim>\<open>RatioOfDerivativesOfCubicRootToSimpleGamma<invert>(v)\<close>: numerator and
  denominator after the clamp of a negative \<open>v\<close> to \<open>0\<close>, and their quotient in
  the chosen direction.
\<close>

definition RatioNum :: "real \<Rightarrow> real" where
  "RatioNum v0 =
     (let v = (if v0 < 0 then 0 else v0);
          kNumMul = kSGRetMul * 3 * kSGmul;
          v2 = v * v
      in kNumMul * v2)"

definition RatioDen :: "real \<Rightarrow> real" where
  "RatioDen v0 =
     (let v = (if v0 < 0 then 0 else v0);
          kVOffset = kSGVOffset * kLog2;
          kDenMul = kLog2 * kSGmul;
          v2 = v * v
      in (kDenMul * v) * v2 + kVOffset)"

definition RatioOfDerivativesOfCubicRootToSimpleGamma :: "bool \<Rightarrow> real \<Rightarrow> real" where
  "RatioOfDerivativesOfCubicRootToSimpleGamma invert v =
     (if invert then RatioNum v / RatioDen v else RatioDen v / RatioNum v)"

definition mul0 :: real where
  "mul0 = 0.030220460298316064"

definition match_gamma_offset :: real where
  "match_gamma_offset = 0.6542639346391887"

definition kDiffCutoff :: real where
  "kDiffCutoff = 0.11883287948847132"

text \<open>
  Modelled from the spec: \<^verbatim>\<open>FrameDimensions\<close> and \<^verbatim>\<open>RoundUpToBlockDim\<close> of
  \<^verbatim>\<open>jxl/common.h\<close>, which is not among the sources. Of the frame dimensions
  only \<^verbatim>\<open>xsize\<close> and \<^verbatim>\<open>ysize\<close> are read here; the spec pads "to the next
  multiple of 8".
\<close>

record FrameDimensions =
  frame_xsize :: nat
  frame_ysize :: nat

definition RoundUpToBlockDim :: "nat \<Rightarrow> nat" where
  "RoundUpToBlockDim x = ((x + 7) div 8) * 8"

text \<open>
  \<^verbatim>\<open>diff *= RatioOfDerivativesOfCubicRootToSimpleGamma(row_in[x] +
  match_gamma_offset); row_out[x] = std::min(cutoff, diff);\<close>
\<close>

definition GammaMin :: "real \<Rightarrow> real \<Rightarrow> real \<Rightarrow> real" where
  "GammaMin cutoff diff v =
     min cutoff (diff * RatioOfDerivativesOfCubicRootToSimpleGamma False (v + match_gamma_offset))"

text \<open>The neighbour rows \<^verbatim>\<open>y2\<close> and \<^verbatim>\<open>y1\<close> of row \<open>y\<close>, mirrored at the border.\<close>

definition RowY2 :: "nat \<Rightarrow> nat \<Rightarrow> nat" where
  "RowY2 ys y = (if y + 1 < ys then y + 1 else if y > 0 then y - 1 else y)"

definition RowY1 :: "nat \<Rightarrow> nat \<Rightarrow> nat" where
  "RowY1 ys y = (if y = 0 \<and> ys \<ge> 2 then y + 1 else if y > 0 then y - 1 else y)"

text \<open>
  The sum of absolute differences of the first pixel and of the interior
  pixels, with left and right neighbours \<open>x1\<close> and \<open>x2\<close>.
\<close>

definition NeighbourDiff ::
  "(nat \<Rightarrow> real) \<Rightarrow> (nat \<Rightarrow> real) \<Rightarrow> (nat \<Rightarrow> real) \<Rightarrow> nat \<Rightarrow> nat \<Rightarrow> nat \<Rightarrow> real" where
  "NeighbourDiff row_in row_in1 row_in2 x x1 x2 =
     mul0 * (\<bar>row_in x - row_in x2\<bar> + \<bar>row_in x - row_in2 x\<bar> +
             \<bar>row_in x - row_in x1\<bar> + \<bar>row_in x - row_in1 x\<bar> +
             3 * (\<bar>row_in2 x - row_in1 x\<bar> + \<bar>row_in x1 - row_in x2\<bar>))"

text \<open>The three kinds of pixel of one row task, for the plane \<open>P\<close> of \<open>ys\<close> rows.\<close>

definition PixelFirst :: "(nat \<Rightarrow> nat \<Rightarrow> real) \<Rightarrow> nat \<Rightarrow> nat \<Rightarrow> real \<Rightarrow> nat \<Rightarrow> real" where
  "PixelFirst P xs ys cutoff y =
     (let x2 = (if xs < 1 then 0 else 1); x1 = x2
      in GammaMin cutoff (NeighbourDiff (P y) (P (RowY1 ys y)) (P (RowY2 ys y)) 0 x1 x2) (P y 0))"

definition PixelInterior :: "(nat \<Rightarrow> nat \<Rightarrow> real) \<Rightarrow> nat \<Rightarrow> real \<Rightarrow> nat \<Rightarrow> nat \<Rightarrow> real" where
  "PixelInterior P ys cutoff y x =
     (let x2 = x + 1; x1 = x - 1
      in GammaMin cutoff (NeighbourDiff (P y) (P (RowY1 ys y)) (P (RowY2 ys y)) x x1 x2) (P y x))"

definition PixelLast :: "(nat \<Rightarrow> nat \<Rightarrow> real) \<Rightarrow> nat \<Rightarrow> real \<Rightarrow> nat \<Rightarrow> nat \<Rightarrow> real" where
  "PixelLast P ys cutoff y x =
     GammaMin cutoff (7.0 * mul0 * \<bar>P y x - P (RowY2 ys y) x\<bar>) (P y x)"

text \<open>
  One task of the row pass, on its own output row \<^verbatim>\<open>row_out\<close>: the first pixel,
  the interior pixels, the last pixel and the extension to a multiple of 8
  columns. The vector loop and the scalar loop of the source apply the same
  expression to each interior pixel (\<^verbatim>\<open>IfThenElse(diff > cutoff, cutoff, diff)\<close>
  and \<^verbatim>\<open>std::min(cutoff, diff)\<close> agree on numbers), so they are one loop here;
  \<open>x\<close> is the value of the loop variable after both.
\<close>

definition DiffRow ::
  "(nat \<Rightarrow> nat \<Rightarrow> real) \<Rightarrow> nat \<Rightarrow> nat \<Rightarrow> real \<Rightarrow> nat \<Rightarrow> nat \<Rightarrow> (nat \<Rightarrow> real) \<Rightarrow> (nat \<Rightarrow> real)" where
  "DiffRow P xs ys cutoff padded_xsize y row_out0 =
     (let row_out1 = row_out0(0 := PixelFirst P xs ys cutoff y);
          row_out2 = for_loop 1 (xs - 1)
                       (\<lambda>x row_out. row_out(x := PixelInterior P ys cutoff y x)) row_out1;
          x = max 1 (xs - 1);
          row_out3 = row_out2(x := PixelLast P ys cutoff y x);
          lastval =
            (if xs \<ge> 3 then (row_out3 (xs - 1) + row_out3 (xs - 3) + row_out3 (xs - 2)) * (1.0 / 3)
             else if xs \<ge> 2 then (row_out3 (xs - 1) + row_out3 (xs - 2)) * 0.5
             else row_out3 (xs - 1))
      in for_loop (x + 1) padded_xsize (\<lambda>x row_out. row_out(x := lastval)) row_out3)"

text \<open>The block \<^verbatim>\<open>// Last row.\<close> that follows the row pass.\<close>

definition LastRowPixel :: "(nat \<Rightarrow> nat \<Rightarrow> real) \<Rightarrow> real \<Rightarrow> nat \<Rightarrow> nat \<Rightarrow> real" where
  "LastRowPixel P cutoff y x =
     (let x2 = x + 1 in GammaMin cutoff (7.0 * mul0 * \<bar>P y x - P y x2\<bar>) (P y x))"

definition LastRow ::
  "(nat \<Rightarrow> nat \<Rightarrow> real) \<Rightarrow> nat \<Rightarrow> nat \<Rightarrow> real \<Rightarrow> (nat \<Rightarrow> nat \<Rightarrow> real) \<Rightarrow> (nat \<Rightarrow> nat \<Rightarrow> real)" where
  "LastRow P xs ys cutoff padded_diff =
     (let y = ys - 1;
          d = for_loop 0 (xs - 1) (\<lambda>x d. store d y x (LastRowPixel P cutoff y x)) padded_diff;
          x = xs - 1
      in if x > 0 then store d y x (d y (x - 1)) else d)"

text \<open>The block \<^verbatim>\<open>// Extend to multiple of 8 rows\<close>, entered when rows are missing.\<close>

definition ExtendRows ::
  "nat \<Rightarrow> nat \<Rightarrow> nat \<Rightarrow> (nat \<Rightarrow> nat \<Rightarrow> real) \<Rightarrow> (nat \<Rightarrow> nat \<Rightarrow> real)" where
  "ExtendRows ys padded_xsize padded_ysize padded_diff =
     for_loop 0 padded_xsize (\<lambda>x d.
       let lastval =
             (if ys \<ge> 3 then (d (ys - 1) x + d (ys - 2) x + d (ys - 3) x) * (1.0 / 3)
              else if ys \<ge> 2 then (d (ys - 1) x + d (ys - 2) x) * 0.5
              else d (ys - 1) x)
       in for_loop ys padded_ysize (\<lambda>y d. store d y x lastval) d) padded_diff"

text \<open>
  The gamma ratio divides by \<open>RatioNum\<close>, which is \<open>0\<close> where the Y plane is at
  most \<open>- match_gamma_offset\<close>; the float code then produces an infinity or a
  NaN. The pixels whose ratio is taken are those of the columns below
  \<open>max 2 xsize\<close> (a frame one pixel wide reads column \<open>1\<close> as its "last"
  pixel).
\<close>

definition GammaDefined :: "Image3F \<Rightarrow> FrameDimensions \<Rightarrow> bool" where
  "GammaDefined xyb frame_dim \<longleftrightarrow>
     (\<forall>y<frame_ysize frame_dim. \<forall>x<max 2 (frame_xsize frame_dim).
        0 < PlaneRow xyb 1 y x + match_gamma_offset)"

text \<open>
  \<^verbatim>\<open>ImageF DiffPrecompute(const Image3F& xyb, const FrameDimensions& frame_dim,
  float cutoff, ThreadPool* pool)\<close>. Each task of the pool writes its own row,
  so the tasks run here in order. The result is \<open>None\<close> where the code has no
  defined number to return: an empty frame (the row pass reads
  \<^verbatim>\<open>row_out[xsize - 1]\<close>), and a division by zero in the gamma ratio. The fresh
  image \<^verbatim>\<open>padded_diff\<close> is all \<open>0\<close> here; every cell is written before it is
  read.
\<close>

definition DiffPrecompute :: "Image3F \<Rightarrow> FrameDimensions \<Rightarrow> real \<Rightarrow> ImageF option" where
  "DiffPrecompute xyb frame_dim cutoff =
     (let xs = frame_xsize frame_dim;
          ys = frame_ysize frame_dim;
          padded_xsize = RoundUpToBlockDim xs;
          padded_ysize = RoundUpToBlockDim ys
      in if xs = 0 \<or> ys = 0 then None
         else if \<not> GammaDefined xyb frame_dim then None
         else
           let d0 = (\<lambda>y x. 0);
               d1 = for_loop 0 ys (\<lambda>y d.
                      d(y := DiffRow (PlaneRow xyb 1) xs ys cutoff padded_xsize y (d y))) d0;
               d2 = LastRow (PlaneRow xyb 1) xs ys cutoff d1;
               d3 = (if ys \<noteq> padded_ysize then ExtendRows ys padded_xsize padded_ysize d2 else d2)
           in Some \<lparr>xsize = padded_xsize, ysize = padded_ysize, Row = d3\<rparr>)"

text \<open>
  In the words of the specification: the mean of the last three (or two, or
  one, as many as there are) of the first \<open>n\<close> entries of \<open>f\<close>.
\<close>

definition MeanOfLast :: "(nat \<Rightarrow> real) \<Rightarrow> nat \<Rightarrow> real" where
  "MeanOfLast f n =
     (if n \<ge> 3 then (f (n - 1) + f (n - 2) + f (n - 3)) / 3
      else if n \<ge> 2 then (f (n - 1) + f (n - 2)) / 2
      else f (n - 1))"

text \<open>
  Closed forms used in the proofs about \<^verbatim>\<open>DiffPrecompute\<close>: the value that the
  row pass computes for a column up to the last pixel, and the image after the
  row pass.
\<close>

definition RowPassCell :: "(nat \<Rightarrow> nat \<Rightarrow> real) \<Rightarrow> nat \<Rightarrow> nat \<Rightarrow> real \<Rightarrow> nat \<Rightarrow> nat \<Rightarrow> real" where
  "RowPassCell P xs ys cutoff y x =
     (if x = max 1 (xs - 1) then PixelLast P ys cutoff y x
      else if x = 0 then PixelFirst P xs ys cutoff y
      else PixelInterior P ys cutoff y x)"

definition RowPassImage :: "(nat \<Rightarrow> nat \<Rightarrow> real) \<Rightarrow> nat \<Rightarrow> nat \<Rightarrow> real \<Rightarrow> nat \<Rightarrow> (nat \<Rightarrow> nat \<Rightarrow> real)" where
  "RowPassImage P xs ys cutoff pxs =
     (\<lambda>y x. if y < ys then
               (if x \<le> max 1 (xs - 1) then RowPassCell P xs ys cutoff y x
                else if x < pxs then MeanOfLast (RowPassCell P xs ys cutoff y) xs
                else 0)
             else 0)"

subsection \<open>DistToPeakMap\<close>

text \<open>
  The window of the cell at coordinate \<open>c0\<close> along one axis of extent \<open>n\<close>:
  \<^verbatim>\<open>int x_min = std::max<int>(0, static_cast<int>(x0) - local_radius);\<close>
  \<^verbatim>\<open>int x_max = std::min<size_t>(field.xsize(), x0 + 1 + local_radius);\<close>
  The sum in the second line is formed in \<^verbatim>\<open>size_t\<close>, where the \<^verbatim>\<open>int\<close> radius is
  taken modulo \<open>2^64\<close>. Both bounds are never negative, and the loops over
  \<^verbatim>\<open>int x = x_min; x < x_max\<close> run over these naturals.
\<close>

definition window_min :: "nat \<Rightarrow> int \<Rightarrow> nat" where
  "window_min c0 local_radius = nat (max 0 (int c0 - local_radius))"

definition window_max :: "nat \<Rightarrow> nat \<Rightarrow> int \<Rightarrow> nat" where
  "window_max n c0 local_radius =
     nat (min (int n) ((int c0 + 1 + local_radius) mod 2 ^ 64))"

text \<open>The running maximum over the window, seeded with \<^verbatim>\<open>peak_min\<close>.\<close>

definition LocalMax :: "ImageF \<Rightarrow> real \<Rightarrow> int \<Rightarrow> nat \<Rightarrow> nat \<Rightarrow> real" where
  "LocalMax field peak_min local_radius x0 y0 =
     for_loop (window_min y0 local_radius) (window_max (ysize field) y0 local_radius) (\<lambda>y.
       for_loop (window_min x0 local_radius) (window_max (xsize field) x0 local_radius)
         (\<lambda>x local_max. max local_max (Row field y x)))
       peak_min"

text \<open>The test that flags the cell \<open>(x0, y0)\<close> as a peak.\<close>

definition IsPeak :: "ImageF \<Rightarrow> real \<Rightarrow> int \<Rightarrow> real \<Rightarrow> nat \<Rightarrow> nat \<Rightarrow> bool" where
  "IsPeak field peak_min local_radius peak_weight x0 y0 \<longleftrightarrow>
     Row field y0 x0 >
       (1.0 - peak_weight) * peak_min +
       peak_weight * LocalMax field peak_min local_radius x0 y0"

text \<open>
  The loops that write the Chebyshev distance to the peak \<open>(x0, y0)\<close> into the
  cells of its window that are unset (negative) or hold a larger distance.
\<close>

definition StampPeak ::
  "ImageF \<Rightarrow> int \<Rightarrow> nat \<Rightarrow> nat \<Rightarrow> (nat \<Rightarrow> nat \<Rightarrow> real) \<Rightarrow> (nat \<Rightarrow> nat \<Rightarrow> real)" where
  "StampPeak field local_radius x0 y0 result =
     for_loop (window_min y0 local_radius) (window_max (ysize field) y0 local_radius) (\<lambda>y.
       for_loop (window_min x0 local_radius) (window_max (xsize field) x0 local_radius)
         (\<lambda>x result.
            let dist = real_of_int (max \<bar>int y - int y0\<bar> \<bar>int x - int x0\<bar>);
                cur_dist = result y x
            in if cur_dist < 0.0 \<or> cur_dist > dist then store result y x dist else result))
       result"

text \<open>
  \<^verbatim>\<open>ImageF DistToPeakMap(const ImageF& field, float peak_min, int local_radius,
  float peak_weight)\<close>; the result starts as \<^verbatim>\<open>FillImage(-1.0f, &result)\<close>.
\<close>

definition DistToPeakMap :: "ImageF \<Rightarrow> real \<Rightarrow> int \<Rightarrow> real \<Rightarrow> ImageF" where
  "DistToPeakMap field peak_min local_radius peak_weight =
     \<lparr>xsize = xsize field, ysize = ysize field,
      Row = for_loop 0 (ysize field) (\<lambda>y0.
              for_loop 0 (xsize field) (\<lambda>x0 result.
                if IsPeak field peak_min local_radius peak_weight x0 y0
                then StampPeak field local_radius x0 y0 result
                else result))
              (\<lambda>y x. - 1.0)\<rparr>"

text \<open>
  The \<open>(2 * local_radius + 1)\<close>-square around \<open>(x0, y0)\<close>, in the words of the
  specification.
\<close>

definition in_window :: "int \<Rightarrow> nat \<Rightarrow> nat \<Rightarrow> nat \<Rightarrow> nat \<Rightarrow> bool" where
  "in_window local_radius x0 y0 x y \<longleftrightarrow>
     \<bar>int x - int x0\<bar> \<le> local_radius \<and> \<bar>int y - int y0\<bar> \<le> local_radius"

text \<open>The cells that the stamping loops of the peak \<open>(x0, y0)\<close> visit.\<close>

definition stamped :: "ImageF \<Rightarrow> int \<Rightarrow> nat \<Rightarrow> nat \<Rightarrow> nat \<Rightarrow> nat \<Rightarrow> bool" where
  "stamped field R x0 y0 x y \<longleftrightarrow>
     window_min y0 R \<le> y \<and> y < window_max (ysize field) y0 R \<and>
     window_min x0 R \<le> x \<and> x < window_max (xsize field) x0 R"

text \<open>
  Book-keeping for the raster scan of \<^verbatim>\<open>AdjustQuantField\<close>: the block corners the
  scan has passed when it stands at \<open>(x0, y0)\<close>, what the field holds at that
  moment, and whether an assertion has failed so far.
\<close>

definition visited :: "nat \<Rightarrow> nat \<Rightarrow> nat \<Rightarrow> nat \<Rightarrow> nat \<Rightarrow> nat \<Rightarrow> bool" where
  "visited W H y0 x0 yb xb \<longleftrightarrow> yb < H \<and> xb < W \<and> (yb < y0 \<or> (yb = y0 \<and> xb < x0))"

definition adjusted_upto ::
  "AcStrategyImage \<Rightarrow> nat \<Rightarrow> nat \<Rightarrow> (nat \<Rightarrow> nat \<Rightarrow> real) \<Rightarrow> nat \<Rightarrow> nat \<Rightarrow> (nat \<Rightarrow> nat \<Rightarrow> real) \<Rightarrow> bool" where
  "adjusted_upto ac W H q0 y0 x0 r \<longleftrightarrow>
     (\<forall>y x.
        (\<forall>yb xb. visited W H y0 x0 yb xb \<and> IsFirstBlock (ac yb xb) \<and>
                 (y, x) \<in> covered ac xb yb \<longrightarrow> r y x = BlockMax (ac yb xb) xb yb q0) \<and>
        ((\<forall>yb xb. visited W H y0 x0 yb xb \<and> IsFirstBlock (ac yb xb) \<longrightarrow>
                  (y, x) \<notin> covered ac xb yb) \<longrightarrow> r y x = q0 y x))"

definition bounds_upto :: "AcStrategyImage \<Rightarrow> nat \<Rightarrow> nat \<Rightarrow> nat \<Rightarrow> nat \<Rightarrow> bool" where
  "bounds_upto ac W H y0 x0 \<longleftrightarrow>
     (\<forall>yb xb. visited W H y0 x0 yb xb \<and> IsFirstBlock (ac yb xb) \<longrightarrow>
        xb + covered_blocks_x (ac yb xb) \<le> W \<and> yb + covered_blocks_y (ac yb xb) \<le> H)"

definition scan_state ::
  "AcStrategyImage \<Rightarrow> nat \<Rightarrow> nat \<Rightarrow> (nat \<Rightarrow> nat \<Rightarrow> real) \<Rightarrow> nat \<Rightarrow> nat \<Rightarrow> (nat \<Rightarrow> nat \<Rightarrow> real) option \<Rightarrow> bool" where
  "scan_state ac W H q0 y0 x0 st \<longleftrightarrow>
     (if bounds_upto ac W H y0 x0 then (\<exists>r. st = Some r \<and> adjusted_upto ac W H q0 y0 x0 r)
      else st = None)"

subsection \<open>Relative error\<close>

text \<open>
  Book-keeping for the rounding error of a chain of operations: \<open>near k x y\<close>
  says that the positive number \<open>x\<close> is \<open>y\<close> up to the factor \<open>relb ^ k\<close>, where
  one rounding of a normal number costs at most one factor \<open>relb = 1 + 2^-23\<close>
  in either direction.
\<close>

definition relb :: real where
  "relb = 1 + 1 / 2 ^ 23"

definition near :: "nat \<Rightarrow> real \<Rightarrow> real \<Rightarrow> bool" where
  "near k x y \<longleftrightarrow> 0 < y \<and> y / relb ^ k \<le> x \<and> x \<le> y * relb ^ k"

section \<open>Binary32 rounding\<close>

lemma pow2_pos [simp]: "0 < (2::real) powi e"
  by (simp add: zero_less_power_int)

lemma pow2_mono: "a \<le> b \<Longrightarrow> (2::real) powi a \<le> 2 powi b"
  by (rule power_int_increasing) simp_all

lemma pow2_strict: "a < b \<Longrightarrow> (2::real) powi a < 2 powi b"
  by (rule power_int_strict_increasing) simp_all

lemma pow2_add: "(2::real) powi (a + b) = 2 powi a * 2 powi b"
  by (simp add: power_int_add)

lemma pow2_diff: "(2::real) powi (a - b) = 2 powi a / 2 powi b"
  by (simp add: power_int_diff)

lemma powr_int_suc: "(2::real) powr (real_of_int e + 1) = 2 powi (e + 1)"
  using powr_real_of_int'[of 2 "e + 1"] by simp

lemma floor_log2:
  assumes "0 < x"
  shows "2 powi \<lfloor>log 2 x\<rfloor> \<le> x" "x < 2 powi (\<lfloor>log 2 x\<rfloor> + 1)"
proof -
  have "\<lfloor>log 2 x\<rfloor> = \<lfloor>log 2 x\<rfloor>" ..
  then have "2 powr real_of_int \<lfloor>log 2 x\<rfloor> \<le> x \<and> x < 2 powr real_of_int (\<lfloor>log 2 x\<rfloor> + 1)"
    using floor_log_eq_powr_iff[of x 2 "\<lfloor>log 2 x\<rfloor>"] assms by simp
  then show "2 powi \<lfloor>log 2 x\<rfloor> \<le> x" "x < 2 powi (\<lfloor>log 2 x\<rfloor> + 1)"
    by (simp_all add: powr_real_of_int' powr_int_suc)
qed

lemma floor_log2_eq:
  assumes "2 powi e \<le> x" "x < 2 powi (e + 1)"
  shows "\<lfloor>log 2 x\<rfloor> = e"
proof -
  have "0 < x" using assms(1) pow2_pos[of e] by linarith
  then show ?thesis
    using floor_log_eq_powr_iff[of x 2 e] assms by (simp add: powr_real_of_int' powr_int_suc)
qed


lemma rne_bounds: "\<lfloor>r\<rfloor> \<le> rne r" "rne r \<le> \<lfloor>r\<rfloor> + 1"
  by (simp_all add: rne_def Let_def)

lemma rne_int [simp]: "rne (of_int k) = k"
  by (simp add: rne_def)

lemma rne_0 [simp]: "rne 0 = 0"
  by (simp add: rne_def)

lemma rne_err: "\<bar>of_int (rne r) - r\<bar> \<le> 1 / 2"
proof -
  have "of_int \<lfloor>r\<rfloor> \<le> r" "r < of_int \<lfloor>r\<rfloor> + 1" by linarith+
  then show ?thesis by (auto simp: rne_def Let_def)
qed

lemma rne_mono:
  assumes "r \<le> s"
  shows "rne r \<le> rne s"
proof (cases "\<lfloor>r\<rfloor> = \<lfloor>s\<rfloor>")
  case True
  with assms show ?thesis by (auto simp: rne_def Let_def)
next
  case False
  with assms have "\<lfloor>r\<rfloor> < \<lfloor>s\<rfloor>" using floor_mono[of r s] by linarith
  then have "rne r \<le> \<lfloor>s\<rfloor>" using rne_bounds(2)[of r] by linarith
  with rne_bounds(1)[of s] show ?thesis by linarith
qed

lemma rne_minus: "rne (- r) = - rne r"
proof (cases "r = of_int \<lfloor>r\<rfloor>")
  case True
  then obtain k where "r = of_int k" ..
  then have "- r = of_int (- k)" by simp
  then have "rne (- r) = - k" by (simp only: rne_int)
  with \<open>r = of_int k\<close> show ?thesis by simp
next
  case False
  have b: "of_int \<lfloor>r\<rfloor> \<le> r" "r < of_int \<lfloor>r\<rfloor> + 1" by linarith+
  with False have lt: "of_int \<lfloor>r\<rfloor> < r" by linarith
  have f: "\<lfloor>- r\<rfloor> = - \<lfloor>r\<rfloor> - 1"
  proof (rule floor_unique)
    have "of_int (- \<lfloor>r\<rfloor> - 1) = - real_of_int \<lfloor>r\<rfloor> - 1" by simp
    then show "of_int (- \<lfloor>r\<rfloor> - 1) \<le> - r" using b(2) by linarith
    have "of_int (- \<lfloor>r\<rfloor> - 1) + 1 = - real_of_int \<lfloor>r\<rfloor>" by simp
    then show "- r < of_int (- \<lfloor>r\<rfloor> - 1) + 1" using lt by linarith
  qed
  show ?thesis
    unfolding rne_def Let_def f using lt b by (auto simp: algebra_simps)
qed


lemma expo_minus [simp]: "expo (- x) = expo x"
  by (simp add: expo_def)

lemma ulp_minus [simp]: "ulp (- x) = ulp x"
  by (simp add: ulp_def)

lemma ulp_pos [simp]: "0 < ulp x"
  by (simp add: ulp_def)

lemma ulp_nonneg [simp]: "0 \<le> ulp x"
  using ulp_pos[of x] by (rule less_imp_le)

lemma ulp_neq0 [simp]: "ulp x \<noteq> 0"
  using ulp_pos[of x] by (rule less_imp_neq[symmetric])

lemma rnd_minus: "rnd (- x) = - rnd x"
  by (simp add: rnd_def rne_minus)

lemma rnd_0 [simp]: "rnd 0 = 0"
  by (simp add: rnd_def)

lemma expo_ge: "- 126 \<le> expo x"
  by (simp add: expo_def)

lemma expo_eq:
  assumes "2 powi e \<le> \<bar>x\<bar>" "\<bar>x\<bar> < 2 powi (e + 1)" "- 126 \<le> e"
  shows "expo x = e"
  using floor_log2_eq[OF assms(1,2)] assms(3) by (simp add: expo_def)

lemma expo_denormal:
  assumes "x \<noteq> 0" "\<bar>x\<bar> < 2 powi (- 126)"
  shows "expo x = - 126"
proof -
  have p: "0 < \<bar>x\<bar>" using assms(1) by simp
  have "\<lfloor>log 2 \<bar>x\<bar>\<rfloor> < - 126"
  proof (rule ccontr)
    assume "\<not> \<lfloor>log 2 \<bar>x\<bar>\<rfloor> < - 126"
    then have "(2::real) powi (- 126) \<le> 2 powi \<lfloor>log 2 \<bar>x\<bar>\<rfloor>" by (intro pow2_mono) simp
    with floor_log2(1)[OF p] assms(2) show False by linarith
  qed
  then show ?thesis by (simp add: expo_def)
qed

lemma expo_upper:
  assumes "x \<noteq> 0"
  shows "\<bar>x\<bar> < 2 powi (expo x + 1)"
proof -
  have p: "0 < \<bar>x\<bar>" using assms by simp
  have "(2::real) powi (\<lfloor>log 2 \<bar>x\<bar>\<rfloor> + 1) \<le> 2 powi (expo x + 1)"
    by (intro pow2_mono) (simp add: expo_def)
  with floor_log2(2)[OF p] show ?thesis by linarith
qed

lemma expo_lower:
  assumes "x \<noteq> 0" "- 126 < expo x"
  shows "2 powi expo x \<le> \<bar>x\<bar>"
proof -
  have p: "0 < \<bar>x\<bar>" using assms by simp
  from assms(2) have "expo x = \<lfloor>log 2 \<bar>x\<bar>\<rfloor>" by (simp add: expo_def max_def split: if_splits)
  with floor_log2(1)[OF p] show ?thesis by simp
qed

lemma expo_mono:
  assumes "0 < x" "x \<le> y"
  shows "expo x \<le> expo y"
proof -
  have "log 2 \<bar>x\<bar> \<le> log 2 \<bar>y\<bar>" using assms by (intro log_mono) simp_all
  then have "\<lfloor>log 2 \<bar>x\<bar>\<rfloor> \<le> \<lfloor>log 2 \<bar>y\<bar>\<rfloor>" by (rule floor_mono)
  then show ?thesis by (simp add: expo_def)
qed

lemma ulp_scale: "2 powi (expo x + 1) = 2 ^ 24 * ulp x" "2 powi expo x = 2 ^ 23 * ulp x"
proof -
  have "expo x + 1 = 24 + (expo x - 23)" by simp
  then have "(2::real) powi (expo x + 1) = 2 powi (24 + (expo x - 23))" by (simp only:)
  also have "\<dots> = 2 powi 24 * 2 powi (expo x - 23)" by (rule pow2_add)
  finally show "2 powi (expo x + 1) = 2 ^ 24 * ulp x" by (simp add: ulp_def)
  have "expo x = 23 + (expo x - 23)" by simp
  then have "(2::real) powi expo x = 2 powi (23 + (expo x - 23))" by (simp only:)
  also have "\<dots> = 2 powi 23 * 2 powi (expo x - 23)" by (rule pow2_add)
  finally show "2 powi expo x = 2 ^ 23 * ulp x" by (simp add: ulp_def)
qed

lemma rnd_nonneg:
  assumes "0 \<le> x"
  shows "0 \<le> rnd x"
proof -
  have "0 \<le> x / ulp x" using assms by (intro divide_nonneg_pos) simp_all
  then have "rne 0 \<le> rne (x / ulp x)" by (rule rne_mono)
  then have "0 \<le> rne (x / ulp x)" by simp
  then show ?thesis unfolding rnd_def by (intro mult_nonneg_nonneg) simp_all
qed

lemma rnd_upper:
  assumes "0 < x"
  shows "rnd x \<le> 2 powi (expo x + 1)"
proof -
  from assms expo_upper[of x] have "x < 2 ^ 24 * ulp x" by (simp add: ulp_scale)
  then have "x / ulp x \<le> of_int (2 ^ 24)" by (simp add: pos_divide_le_eq)
  then have "rne (x / ulp x) \<le> rne (of_int (2 ^ 24))" by (rule rne_mono)
  then have "rne (x / ulp x) \<le> 2 ^ 24" by (simp only: rne_int)
  then have "real_of_int (rne (x / ulp x)) \<le> real_of_int (2 ^ 24)" by (simp only: of_int_le_iff)
  then have "real_of_int (rne (x / ulp x)) \<le> 2 ^ 24" by simp
  then have "rnd x \<le> 2 ^ 24 * ulp x" unfolding rnd_def by (intro mult_right_mono) simp_all
  then show ?thesis by (simp add: ulp_scale)
qed

lemma rnd_lower:
  assumes "0 < x" "- 126 < expo x"
  shows "2 powi expo x \<le> rnd x"
proof -
  from assms expo_lower[of x] have "2 ^ 23 * ulp x \<le> x" by (simp add: ulp_scale)
  then have "of_int (2 ^ 23) \<le> x / ulp x" by (simp add: pos_le_divide_eq)
  then have "rne (of_int (2 ^ 23)) \<le> rne (x / ulp x)" by (rule rne_mono)
  then have "2 ^ 23 \<le> rne (x / ulp x)" by (simp only: rne_int)
  then have "real_of_int (2 ^ 23) \<le> real_of_int (rne (x / ulp x))" by (simp only: of_int_le_iff)
  then have "2 ^ 23 \<le> real_of_int (rne (x / ulp x))" by simp
  then have "2 ^ 23 * ulp x \<le> rnd x" unfolding rnd_def by (intro mult_right_mono) simp_all
  then show ?thesis by (simp add: ulp_scale)
qed

lemma rnd_mono_pos:
  assumes "0 < x" "x \<le> y"
  shows "rnd x \<le> rnd y"
proof (cases "expo x = expo y")
  case True
  then have u: "ulp x = ulp y" by (simp add: ulp_def)
  have "x / ulp y \<le> y / ulp y" using assms(2) by (intro divide_right_mono) simp_all
  then have "rne (x / ulp y) \<le> rne (y / ulp y)" by (rule rne_mono)
  then have "real_of_int (rne (x / ulp y)) \<le> real_of_int (rne (y / ulp y))" by linarith
  then show ?thesis unfolding rnd_def u by (intro mult_right_mono) simp_all
next
  case False
  with expo_mono[OF assms] have lt: "expo x < expo y" by simp
  then have "- 126 < expo y" using expo_ge[of x] by linarith
  with assms have "2 powi expo y \<le> rnd y" by (intro rnd_lower) simp_all
  moreover have "(2::real) powi (expo x + 1) \<le> 2 powi expo y" using lt by (intro pow2_mono) simp
  moreover note rnd_upper[OF assms(1)]
  ultimately show ?thesis by linarith
qed

lemma rnd_mono:
  assumes "x \<le> y"
  shows "rnd x \<le> rnd y"
proof -
  consider "0 < x" | "x \<le> 0" "0 \<le> y" | "y < 0" by linarith
  then show ?thesis
  proof cases
    case 1
    then show ?thesis using assms by (rule rnd_mono_pos)
  next
    case 2
    from 2(1) have "0 \<le> rnd (- x)" by (intro rnd_nonneg) simp
    then have "rnd x \<le> 0" by (simp add: rnd_minus)
    with rnd_nonneg[OF 2(2)] show ?thesis by linarith
  next
    case 3
    then have "rnd (- y) \<le> rnd (- x)" using assms by (intro rnd_mono_pos) simp_all
    then show ?thesis by (simp add: rnd_minus)
  qed
qed

lemma rnd_eval:
  assumes "2 powi e \<le> \<bar>x\<bar>" "\<bar>x\<bar> < 2 powi (e + 1)" "- 126 \<le> e"
  shows "rnd x = of_int (rne (x / 2 powi (e - 23))) * 2 powi (e - 23)"
  by (simp add: rnd_def ulp_def expo_eq[OF assms])

lemma rnd_eval_denormal:
  assumes "\<bar>x\<bar> < 2 powi (- 126)"
  shows "rnd x = of_int (rne (x / 2 powi (- 149))) * 2 powi (- 149)"
proof (cases "x = 0")
  case True
  then show ?thesis by simp
next
  case False
  then show ?thesis by (simp add: rnd_def ulp_def expo_denormal[OF False assms])
qed

lemma rnd_rel_err:
  assumes "2 powi (- 126) \<le> \<bar>x\<bar>"
  shows "\<bar>rnd x - x\<bar> \<le> \<bar>x\<bar> / 2 ^ 24"
proof -
  have nz: "x \<noteq> 0" using assms pow2_pos[of "- 126"] by auto
  have e: "- 126 < expo x \<or> expo x = - 126" using expo_ge[of x] by linarith
  have low: "2 powi expo x \<le> \<bar>x\<bar>"
  proof (cases "- 126 < expo x")
    case True
    then show ?thesis by (rule expo_lower[OF nz])
  next
    case False
    with e have "expo x = - 126" by simp
    with assms show ?thesis by simp
  qed
  have "\<bar>rnd x - x\<bar> = \<bar>of_int (rne (x / ulp x)) - x / ulp x\<bar> * ulp x"
  proof -
    have "rnd x - x = (of_int (rne (x / ulp x)) - x / ulp x) * ulp x"
      by (simp add: rnd_def left_diff_distrib)
    then show ?thesis by (simp add: abs_mult)
  qed
  also have "\<dots> \<le> 1 / 2 * ulp x" by (intro mult_right_mono rne_err) simp
  also have "\<dots> = 2 powi expo x / 2 ^ 24" by (simp add: ulp_scale)
  also have "\<dots> \<le> \<bar>x\<bar> / 2 ^ 24" using low by (simp add: divide_right_mono)
  finally show ?thesis .
qed


lemma rnd_fix:
  assumes "\<bar>k\<bar> < 2 ^ 24" "- 126 \<le> e" "2 ^ 23 \<le> \<bar>k\<bar> \<or> e = - 126"
  shows "rnd (of_int k * 2 powi (e - 23)) = of_int k * 2 powi (e - 23)"
proof (cases "k = 0")
  case True
  then show ?thesis by simp
next
  case False
  define u :: real where "u = 2 powi (e - 23)"
  define x where "x = of_int k * u"
  have u: "0 < u" by (simp add: u_def)
  have sc: "2 powi (e + 1) = 2 ^ 24 * u" "2 powi e = 2 ^ 23 * u"
  proof -
    have "e + 1 = 24 + (e - 23)" by simp
    then have "(2::real) powi (e + 1) = 2 powi (24 + (e - 23))" by (simp only:)
    also have "\<dots> = 2 powi 24 * 2 powi (e - 23)" by (rule pow2_add)
    finally show "2 powi (e + 1) = 2 ^ 24 * u" by (simp add: u_def)
    have "e = 23 + (e - 23)" by simp
    then have "(2::real) powi e = 2 powi (23 + (e - 23))" by (simp only:)
    also have "\<dots> = 2 powi 23 * 2 powi (e - 23)" by (rule pow2_add)
    finally show "2 powi e = 2 ^ 23 * u" by (simp add: u_def)
  qed
  have ax: "\<bar>x\<bar> = of_int \<bar>k\<bar> * u" using u by (simp add: x_def abs_mult)
  have nz: "x \<noteq> 0" using False u by (simp add: x_def)
  have "real_of_int \<bar>k\<bar> < real_of_int (2 ^ 24)" using assms(1) by (simp only: of_int_less_iff)
  then have "real_of_int \<bar>k\<bar> < 2 ^ 24" by simp
  then have up: "\<bar>x\<bar> < 2 powi (e + 1)" unfolding ax sc using u by (intro mult_strict_right_mono)
  have ex: "expo x = e"
  proof (cases "2 ^ 23 \<le> \<bar>k\<bar>")
    case True
    then have "real_of_int (2 ^ 23) \<le> real_of_int \<bar>k\<bar>" by (simp only: of_int_le_iff)
    then have "2 ^ 23 \<le> real_of_int \<bar>k\<bar>" by simp
    then have "2 powi e \<le> \<bar>x\<bar>" unfolding ax sc using u by (intro mult_right_mono) simp_all
    then show ?thesis using up assms(2) by (rule expo_eq)
  next
    case F: False
    with assms(3) have e: "e = - 126" by simp
    show ?thesis
    proof (cases "2 powi (- 126) \<le> \<bar>x\<bar>")
      case True
      then show ?thesis using up e expo_eq[of "- 126" x] by simp
    next
      case False
      then show ?thesis using expo_denormal[OF nz] e by simp
    qed
  qed
  have "rnd x = of_int (rne (x / u)) * u" by (simp add: rnd_def ulp_def ex u_def)
  also have "x / u = of_int k" using u by (simp add: x_def)
  finally show ?thesis by (simp add: x_def u_def)
qed

lemma rnd_idem [simp]: "rnd (rnd x) = rnd x"
proof -
  have pos: "rnd (rnd x) = rnd x" if "0 < x" for x
  proof -
    define k where "k = rne (x / ulp x)"
    have r: "rnd x = of_int k * 2 powi (expo x - 23)" by (simp add: rnd_def k_def ulp_def)
    have k0: "0 \<le> k"
    proof -
      have "0 \<le> x / ulp x" using that by (intro divide_nonneg_pos) simp_all
      then have "rne 0 \<le> rne (x / ulp x)" by (rule rne_mono)
      then show ?thesis by (simp add: k_def)
    qed
    have kup: "k \<le> 2 ^ 24"
    proof -
      from that expo_upper[of x] have "x < 2 ^ 24 * ulp x" by (simp add: ulp_scale)
      then have "x / ulp x \<le> of_int (2 ^ 24)" by (simp add: pos_divide_le_eq)
      then have "rne (x / ulp x) \<le> rne (of_int (2 ^ 24))" by (rule rne_mono)
      then show ?thesis unfolding k_def by (simp only: rne_int)
    qed
    show ?thesis
    proof (cases "k = 2 ^ 24")
      case True
      have "expo x - 23 = (expo x + 1) - 23 - 1" by simp
      then have "(2::real) powi (expo x - 23) = 2 powi ((expo x + 1) - 23 - 1)" by (simp only:)
      also have "\<dots> = 2 powi ((expo x + 1) - 23) / 2" by (simp add: pow2_diff)
      finally have "rnd x = of_int (2 ^ 23) * 2 powi ((expo x + 1) - 23)"
        unfolding r True by simp
      moreover have "rnd (of_int (2 ^ 23) * 2 powi ((expo x + 1) - 23))
        = of_int (2 ^ 23) * 2 powi ((expo x + 1) - 23)"
        by (rule rnd_fix) (use expo_ge[of x] in simp_all)
      ultimately show ?thesis by simp
    next
      case False
      with kup k0 have a: "\<bar>k\<bar> < 2 ^ 24" by simp
      have c: "2 ^ 23 \<le> \<bar>k\<bar> \<or> expo x = - 126"
      proof (cases "- 126 < expo x")
        case True
        with that expo_lower[of x] have "2 ^ 23 * ulp x \<le> x" by (simp add: ulp_scale)
        then have "of_int (2 ^ 23) \<le> x / ulp x" by (simp add: pos_le_divide_eq)
        then have "rne (of_int (2 ^ 23)) \<le> rne (x / ulp x)" by (rule rne_mono)
        then have "2 ^ 23 \<le> k" unfolding k_def by (simp only: rne_int)
        then show ?thesis by simp
      next
        case False
        then show ?thesis using expo_ge[of x] by simp
      qed
      show ?thesis unfolding r by (rule rnd_fix[OF a expo_ge c])
    qed
  qed
  consider "0 < x" | "x = 0" | "x < 0" by linarith
  then show ?thesis
  proof cases
    case 1
    then show ?thesis by (rule pos)
  next
    case 2
    then show ?thesis by simp
  next
    case 3
    then have "rnd (rnd (- x)) = rnd (- x)" by (intro pos) simp
    then show ?thesis by (simp add: rnd_minus)
  qed
qed

lemma huge32_pos: "0 < huge32"
  by (simp add: huge32_def)

lemma pack_cases:
  obtains "huge32 \<le> rnd x" "pack s x = PInf"
  | "rnd x \<le> - huge32" "pack s x = NInf"
  | "rnd x = 0" "pack s x = zero32 (x < 0 \<or> (x = 0 \<and> s))"
  | "rnd x \<noteq> 0" "\<bar>rnd x\<bar> < huge32" "pack s x = Fin (rnd x)"
  unfolding pack_def Let_def by (cases "huge32 \<le> rnd x"; cases "rnd x \<le> - huge32"; cases "rnd x = 0") auto

lemma pack_not_NaN [simp]: "pack s x \<noteq> NaN"
  by (simp add: pack_def Let_def zero32_def)

lemma rank_pack: "rank (pack s x) = max (- huge32) (min huge32 (rnd x))"
  using huge32_pos by (rule_tac pack_cases[of x s]) (simp_all add: zero32_def)

lemma pack_mono:
  assumes "x \<le> y"
  shows "rank (pack s x) \<le> rank (pack t y)"
  using rnd_mono[OF assms] by (simp add: rank_pack)

lemma is_f32_pack [simp]: "is_f32 (pack s x)"
  by (rule pack_cases[of x s]) (simp_all add: zero32_def huge32_pos)

lemma pack_eval:
  assumes "rnd x = r" "\<bar>r\<bar> < huge32" "r \<noteq> 0"
  shows "pack s x = Fin r"
  using assms by (auto simp add: pack_def)

lemma is_f32_fadd [simp]: "is_f32 (fadd a b)"
  by (cases a; cases b) (simp_all add: fadd_def)

lemma is_f32_zero32 [simp]: "is_f32 (zero32 s)"
  by (simp add: zero32_def huge32_pos)

lemma is_f32_inf32 [simp]: "is_f32 (inf32 s)"
  by (simp add: inf32_def)

lemma is_f32_fmul [simp]: "is_f32 (fmul a b)"
  by (simp add: fmul_def)

lemma is_f32_fdiv [simp]: "is_f32 (fdiv a b)"
  by (simp add: fdiv_def)

lemma is_f32_fsub [simp]: "is_f32 (fsub a b)"
  by (simp add: fsub_def)

lemma rnd_tiny:
  assumes "2 powi (- 128) \<le> x"
  shows "2 powi (- 128) \<le> rnd x"
proof -
  have "rnd (of_int (2 ^ 21) * 2 powi (- 126 - 23)) = of_int (2 ^ 21) * 2 powi (- 126 - 23)"
    by (rule rnd_fix) simp_all
  then have "rnd (2 powi (- 128)) = 2 powi (- 128)" by simp
  with rnd_mono[OF assms] show ?thesis by simp
qed

lemma recip_huge:
  assumes "0 < s" "s < huge32"
  shows "2 powi (- 128) \<le> 1 / s"
proof -
  have "1 / huge32 \<le> 1 / s" using assms by (intro divide_left_mono) (simp_all add: huge32_def)
  then show ?thesis by (simp add: huge32_def)
qed

lemma rank_pack_pos:
  assumes "2 powi (- 128) \<le> x"
  shows "0 < rank (pack s x)"
proof -
  have "0 < (2::real) powi (- 128)" by simp
  with rnd_tiny[OF assms] have "0 < rnd x" by linarith
  then show ?thesis using huge32_pos by (simp add: rank_pack max_def min_def)
qed

lemma rank_pack_nonneg:
  assumes "0 \<le> x"
  shows "0 \<le> rank (pack s x)"
  using rnd_nonneg[OF assms] huge32_pos by (simp add: rank_pack max_def min_def)

lemma pos_form:
  assumes "a \<noteq> NaN" "0 < rank a" "is_f32 a"
  obtains "a = PInf" | r where "a = Fin r" "0 < r" "r < huge32"
  using assms huge32_pos by (cases a) auto

lemma recip_form:
  assumes "a \<noteq> NaN" "0 < rank a" "is_f32 a"
  shows "fdiv (Fin 1) a \<noteq> NaN" "0 \<le> rank (fdiv (Fin 1) a)"
  using assms(1,2,3)
  by (rule pos_form; simp add: fdiv_def zero32_def rank_pack_nonneg)+

lemma recip_antimono:
  assumes a: "a \<noteq> NaN" "0 < rank a" "is_f32 a"
    and b: "b \<noteq> NaN" "is_f32 b" "rank a \<le> rank b"
  shows "rank (fdiv (Fin 1) b) \<le> rank (fdiv (Fin 1) a)"
proof -
  from a b have pb: "0 < rank b" by linarith
  from b(1) pb b(2) show ?thesis
  proof (rule pos_form)
    assume "b = PInf"
    then have "fdiv (Fin 1) b = Fin 0" by (simp add: fdiv_def zero32_def)
    with recip_form(2)[OF a] show ?thesis by simp
  next
    fix s assume s: "b = Fin s" "0 < s" "s < huge32"
    from a show ?thesis
    proof (rule pos_form)
      assume "a = PInf"
      with b(3) s show ?thesis by simp
    next
      fix r assume r: "a = Fin r" "0 < r" "r < huge32"
      with s b(3) have "1 / s \<le> 1 / r" by (simp add: frac_le)
      then have "rank (pack False (1 / s)) \<le> rank (pack False (1 / r))" by (rule pack_mono)
      with r s show ?thesis by (simp add: fdiv_def)
    qed
  qed
qed

lemma recip_max:
  assumes "m \<noteq> NaN" "0 < rank m" "is_f32 m" "is_f32 adj"
  shows "fle (Fin 0) (fdiv (Fin 1) (std_max m adj))"
    and "fle (fdiv (Fin 1) (std_max m adj)) (fdiv (Fin 1) m)"
proof -
  let ?D = "std_max m adj"
  have D: "?D \<noteq> NaN \<and> is_f32 ?D \<and> rank m \<le> rank ?D"
    using assms by (simp add: std_max_def flt_def)
  then have p: "0 < rank ?D" using assms(2) by linarith
  from D p have f: "fdiv (Fin 1) ?D \<noteq> NaN" "0 \<le> rank (fdiv (Fin 1) ?D)"
    by (simp_all add: recip_form)
  then show "fle (Fin 0) (fdiv (Fin 1) ?D)" by (simp add: fle_def)
  have "rank (fdiv (Fin 1) ?D) \<le> rank (fdiv (Fin 1) m)"
    by (rule recip_antimono) (use assms D in simp_all)
  with f recip_form(1)[OF assms(1,2,3)] show "fle (fdiv (Fin 1) ?D) (fdiv (Fin 1) m)"
    by (simp add: fle_def)
qed

lemma recip_ceiling:
  assumes "0 < M" "M < huge32"
  shows "fdiv (Fin 1) (Fin M) = pack False (1 / M)"
    and "0 < rank (fdiv (Fin 1) (Fin M))"
proof -
  show e: "fdiv (Fin 1) (Fin M) = pack False (1 / M)" using assms by (simp add: fdiv_def)
  show "0 < rank (fdiv (Fin 1) (Fin M))"
    unfolding e by (rule rank_pack_pos) (rule recip_huge[OF assms])
qed


lemma fle_trans:
  assumes "fle a b" "fle b c"
  shows "fle a c"
  using assms by (auto simp: fle_def)

lemma is_f32_pos_form:
  assumes "is_f32 a" "finite32 a" "flt (Fin 0) a"
  obtains M where "a = Fin M" "0 < M" "rnd M = M" "M < huge32"
  using assms by (cases a) (auto simp: flt_def)

lemma fmul_eval:
  assumes "rnd (a * b) = r" "\<bar>r\<bar> < huge32" "r \<noteq> 0"
  shows "fmul (Fin a) (Fin b) = Fin r"
  using assms by (simp add: fmul_def pack_eval)

lemma fdiv_eval:
  assumes "rnd (a / b) = r" "\<bar>r\<bar> < huge32" "r \<noteq> 0"
  shows "fdiv (Fin a) (Fin b) = Fin r"
proof -
  from assms(1,3) have "b \<noteq> 0" by auto
  then show ?thesis using assms by (simp add: fdiv_def pack_eval)
qed

lemma fadd_eval:
  assumes "rnd (a + b) = r" "\<bar>r\<bar> < huge32" "r \<noteq> 0"
  shows "fadd (Fin a) (Fin b) = Fin r"
  using assms by (simp add: fadd_def pack_eval)

lemma fsub_eval:
  assumes "rnd (a - b) = r" "\<bar>r\<bar> < huge32" "r \<noteq> 0"
  shows "fsub (Fin a) (Fin b) = Fin r"
proof (cases "b = 0")
  case True
  with assms have "pack (a < 0) (a + 0) = Fin r" by (intro pack_eval) simp_all
  with True show ?thesis by (simp add: fsub_def fadd_def)
next
  case False
  with assms have "pack (a < 0 \<and> - b < 0) (a + - b) = Fin r" by (intro pack_eval) simp_all
  with False show ?thesis by (simp add: fsub_def fadd_def)
qed


section \<open>Loop reasoning\<close>

lemma fold_invariant:
  assumes "P s" and "\<And>x s. x \<in> set xs \<Longrightarrow> P s \<Longrightarrow> P (f x s)"
  shows "P (fold f xs s)"
  using assms by (induction xs arbitrary: s) auto

lemma for_loop_invariant:
  assumes "P s" and "\<And>i s. lo \<le> i \<Longrightarrow> i < hi \<Longrightarrow> P s \<Longrightarrow> P (body i s)"
  shows "P (for_loop lo hi body s)"
  unfolding for_loop_def
proof (rule fold_invariant[where P = P])
  show "P s" by fact
  show "P (body x s)" if "x \<in> set [lo..<hi]" "P s" for x s
    using that assms(2)[of x s] by simp
qed

lemma for_loop_step:
  assumes "lo \<le> hi"
  shows "for_loop lo (Suc hi) body s = body hi (for_loop lo hi body s)"
  using assms by (simp add: for_loop_def)

lemma for_loop_empty [simp]: "hi \<le> lo \<Longrightarrow> for_loop lo hi body s = s"
  by (simp add: for_loop_def)

lemma for_loop_induct:
  assumes "lo \<le> hi" and "P lo s"
    and "\<And>i s. lo \<le> i \<Longrightarrow> i < hi \<Longrightarrow> P i s \<Longrightarrow> P (Suc i) (body i s)"
  shows "P hi (for_loop lo hi body s)"
  using assms
proof (induction hi)
  case 0
  then show ?case by simp
next
  case (Suc hi)
  show ?case
  proof (cases "lo = Suc hi")
    case True
    with Suc.prems show ?thesis by simp
  next
    case False
    with Suc.prems have le: "lo \<le> hi" by simp
    have "P hi (for_loop lo hi body s)"
      using le Suc.prems by (intro Suc.IH) auto
    then show ?thesis
      using le Suc.prems(3)[of hi] by (simp add: for_loop_step)
  qed
qed

lemma for_loop_cong:
  assumes "\<And>i s. lo \<le> i \<Longrightarrow> i < hi \<Longrightarrow> f i s = g i s"
  shows "for_loop lo hi f s = for_loop lo hi g s"
  unfolding for_loop_def
  by (rule fold_cong) (use assms in auto)

lemma for_loop_unroll:
  "for_loop lo hi body s = (if lo < hi then for_loop (Suc lo) hi body (body lo s) else s)"
  by (simp add: for_loop_def upt_rec)

lemma store_apply: "store r y x v y' x' = (if y' = y \<and> x' = x then v else r y' x')"
  by (simp add: store_def)

text \<open>A loop that rewrites each cell from its own old value acts cell by cell.\<close>

lemma row_loop_pointwise:
  "for_loop 0 W (\<lambda>x r. store r y x (g x (r y x))) r0 =
     (\<lambda>y' x'. if y' = y \<and> x' < W then g x' (r0 y' x') else r0 y' x')"
proof (rule for_loop_induct[where P = "\<lambda>w r. r = (\<lambda>y' x'. if y' = y \<and> x' < w then g x' (r0 y' x') else r0 y' x')"])
  show "0 \<le> W" by simp
  show "r0 = (\<lambda>y' x'. if y' = y \<and> x' < 0 then g x' (r0 y' x') else r0 y' x')" by simp
next
  fix i r
  assume "i < W" and r: "r = (\<lambda>y' x'. if y' = y \<and> x' < i then g x' (r0 y' x') else r0 y' x')"
  show "store r y i (g i (r y i)) = (\<lambda>y' x'. if y' = y \<and> x' < Suc i then g x' (r0 y' x') else r0 y' x')"
    by (intro ext) (auto simp: store_apply r less_Suc_eq)
qed

lemma image_loop_pointwise:
  "for_loop 0 H (\<lambda>y. for_loop 0 W (\<lambda>x r. store r y x (g y x (r y x)))) r0 =
     (\<lambda>y x. if y < H \<and> x < W then g y x (r0 y x) else r0 y x)"
proof (rule for_loop_induct[where P = "\<lambda>h r. r = (\<lambda>y x. if y < h \<and> x < W then g y x (r0 y x) else r0 y x)"])
  show "0 \<le> H" by simp
  show "r0 = (\<lambda>y x. if y < 0 \<and> x < W then g y x (r0 y x) else r0 y x)" by simp
next
  fix i r
  assume "i < H" and r: "r = (\<lambda>y x. if y < i \<and> x < W then g y x (r0 y x) else r0 y x)"
  show "for_loop 0 W (\<lambda>x r. store r i x (g i x (r i x))) r =
        (\<lambda>y x. if y < Suc i \<and> x < W then g y x (r0 y x) else r0 y x)"
    unfolding row_loop_pointwise by (intro ext) (auto simp: r less_Suc_eq)
qed

lemma row_range_pointwise:
  "for_loop lo hi (\<lambda>x r. store r y x (g x (r y x))) r0 =
     (\<lambda>y' x'. if y' = y \<and> lo \<le> x' \<and> x' < hi then g x' (r0 y' x') else r0 y' x')"
proof (cases "lo \<le> hi")
  case False
  then show ?thesis by (intro ext) auto
next
  case True
  then show ?thesis
  proof (rule for_loop_induct[where P = "\<lambda>w r. r = (\<lambda>y' x'. if y' = y \<and> lo \<le> x' \<and> x' < w then g x' (r0 y' x') else r0 y' x')"])
    show "r0 = (\<lambda>y' x'. if y' = y \<and> lo \<le> x' \<and> x' < lo then g x' (r0 y' x') else r0 y' x')"
      by (intro ext) auto
  next
    fix i r
    assume "lo \<le> i" "i < hi"
      and r: "r = (\<lambda>y' x'. if y' = y \<and> lo \<le> x' \<and> x' < i then g x' (r0 y' x') else r0 y' x')"
    then show "store r y i (g i (r y i)) =
          (\<lambda>y' x'. if y' = y \<and> lo \<le> x' \<and> x' < Suc i then g x' (r0 y' x') else r0 y' x')"
      by (intro ext) (auto simp: store_apply less_Suc_eq)
  qed
qed

lemma image_range_pointwise:
  "for_loop ylo yhi (\<lambda>y. for_loop xlo xhi (\<lambda>x r. store r y x (g y x (r y x)))) r0 =
     (\<lambda>y x. if ylo \<le> y \<and> y < yhi \<and> xlo \<le> x \<and> x < xhi then g y x (r0 y x) else r0 y x)"
proof (cases "ylo \<le> yhi")
  case False
  then show ?thesis by (intro ext) auto
next
  case True
  then show ?thesis
  proof (rule for_loop_induct[where P = "\<lambda>h r. r = (\<lambda>y x. if ylo \<le> y \<and> y < h \<and> xlo \<le> x \<and> x < xhi then g y x (r0 y x) else r0 y x)"])
    show "r0 = (\<lambda>y x. if ylo \<le> y \<and> y < ylo \<and> xlo \<le> x \<and> x < xhi then g y x (r0 y x) else r0 y x)"
      by (intro ext) auto
  next
    fix i r
    assume "ylo \<le> i" "i < yhi"
      and r: "r = (\<lambda>y x. if ylo \<le> y \<and> y < i \<and> xlo \<le> x \<and> x < xhi then g y x (r0 y x) else r0 y x)"
    then show "for_loop xlo xhi (\<lambda>x r. store r i x (g i x (r i x))) r =
          (\<lambda>y x. if ylo \<le> y \<and> y < Suc i \<and> xlo \<le> x \<and> x < xhi then g y x (r0 y x) else r0 y x)"
      unfolding row_range_pointwise by (intro ext) (auto simp: less_Suc_eq)
  qed
qed

lemma store_same: "store r y x (r y x) = r"
  by (intro ext) (simp add: store_apply)

lemma fill_loop:
  "for_loop lo hi (\<lambda>x r. r(x := g x)) r0 = (\<lambda>x. if lo \<le> x \<and> x < hi then g x else r0 x)"
proof (cases "lo \<le> hi")
  case False
  then show ?thesis by (intro ext) auto
next
  case True
  then show ?thesis
  proof (rule for_loop_induct[where P = "\<lambda>h r. r = (\<lambda>x. if lo \<le> x \<and> x < h then g x else r0 x)"])
    show "r0 = (\<lambda>x. if lo \<le> x \<and> x < lo then g x else r0 x)" by (intro ext) auto
  next
    fix i r
    assume "lo \<le> i" "i < hi" and r: "r = (\<lambda>x. if lo \<le> x \<and> x < i then g x else r0 x)"
    then show "r(i := g i) = (\<lambda>x. if lo \<le> x \<and> x < Suc i then g x else r0 x)"
      by (intro ext) (auto simp: less_Suc_eq)
  qed
qed

lemma rows_pass:
  "for_loop 0 ys (\<lambda>y d. d(y := F y (d y))) d0 = (\<lambda>y. if y < ys then F y (d0 y) else d0 y)"
proof (rule for_loop_induct[where P = "\<lambda>h d. d = (\<lambda>y. if y < h then F y (d0 y) else d0 y)"])
  show "0 \<le> ys" by simp
  show "d0 = (\<lambda>y. if y < 0 then F y (d0 y) else d0 y)" by simp
next
  fix i d
  assume "i < ys" and d: "d = (\<lambda>y. if y < i then F y (d0 y) else d0 y)"
  then show "d(i := F i (d i)) = (\<lambda>y. if y < Suc i then F y (d0 y) else d0 y)"
    by (intro ext) (auto simp: less_Suc_eq)
qed

section \<open>The max-error multiplier\<close>

lemma BlockMaxError_nonneg: "0 \<le> BlockMaxError opsin decoded inv_max_err acs bx by"
  unfolding BlockMaxError_def
proof (rule for_loop_invariant[where P = "\<lambda>m. 0 \<le> m"])
  show "(0::real) \<le> 0" by simp
next
  fix c :: nat and m :: real
  assume m: "0 \<le> m"
  show "0 \<le> for_loop (by * kBlockDim) ((by + covered_blocks_y acs) * kBlockDim)
          (\<lambda>y max_error.
             if ysize3 decoded \<le> y then max_error
             else for_loop (bx * kBlockDim) ((bx + covered_blocks_x acs) * kBlockDim)
                    (\<lambda>x max_error.
                       if xsize3 decoded \<le> x then max_error
                       else max (\<bar>PlaneRow opsin c y x - PlaneRow decoded c y x\<bar> * inv_max_err c)
                              max_error)
                    max_error) m"
  proof (rule for_loop_invariant[where P = "\<lambda>m. 0 \<le> m"])
    show "0 \<le> m" by fact
  next
    fix y :: nat and m' :: real
    assume m': "0 \<le> m'"
    have "0 \<le> for_loop (bx * kBlockDim) ((bx + covered_blocks_x acs) * kBlockDim)
                 (\<lambda>x max_error.
                    if xsize3 decoded \<le> x then max_error
                    else max (\<bar>PlaneRow opsin c y x - PlaneRow decoded c y x\<bar> * inv_max_err c)
                           max_error) m'"
      by (rule for_loop_invariant[where P = "\<lambda>m. 0 \<le> m"])
         (use m' in \<open>simp_all add: le_max_iff_disj\<close>)
    with m' show "0 \<le> (if ysize3 decoded \<le> y then m'
                   else for_loop (bx * kBlockDim) ((bx + covered_blocks_x acs) * kBlockDim)
                          (\<lambda>x max_error.
                             if xsize3 decoded \<le> x then max_error
                             else max (\<bar>PlaneRow opsin c y x - PlaneRow decoded c y x\<bar> * inv_max_err c)
                                    max_error) m')"
      by simp
  qed
qed

lemma BlockMaxError_same: "BlockMaxError img img inv_max_err acs bx by = 0"
proof -
  have "BlockMaxError img img inv_max_err acs bx by \<le> 0"
    unfolding BlockMaxError_def
  proof (rule for_loop_invariant[where P = "\<lambda>m. m \<le> 0"])
    show "(0::real) \<le> 0" by simp
  next
    fix c :: nat and m :: real
    assume m: "m \<le> 0"
    show "for_loop (by * kBlockDim) ((by + covered_blocks_y acs) * kBlockDim)
            (\<lambda>y max_error.
               if ysize3 img \<le> y then max_error
               else for_loop (bx * kBlockDim) ((bx + covered_blocks_x acs) * kBlockDim)
                      (\<lambda>x max_error.
                         if xsize3 img \<le> x then max_error
                         else max (\<bar>PlaneRow img c y x - PlaneRow img c y x\<bar> * inv_max_err c)
                                max_error)
                      max_error) m \<le> 0"
    proof (rule for_loop_invariant[where P = "\<lambda>m. m \<le> 0"])
      show "m \<le> 0" by fact
    next
      fix y :: nat and m' :: real
      assume m': "m' \<le> 0"
      have "for_loop (bx * kBlockDim) ((bx + covered_blocks_x acs) * kBlockDim)
              (\<lambda>x max_error.
                 if xsize3 img \<le> x then max_error
                 else max (\<bar>PlaneRow img c y x - PlaneRow img c y x\<bar> * inv_max_err c)
                        max_error) m' \<le> 0"
        by (rule for_loop_invariant[where P = "\<lambda>m. m \<le> 0"]) (use m' in simp_all)
      with m' show "(if ysize3 img \<le> y then m'
                     else for_loop (bx * kBlockDim) ((bx + covered_blocks_x acs) * kBlockDim)
                            (\<lambda>x max_error.
                               if xsize3 img \<le> x then max_error
                               else max (\<bar>PlaneRow img c y x - PlaneRow img c y x\<bar> * inv_max_err c)
                                      max_error) m') \<le> 0"
        by simp
    qed
  qed
  with BlockMaxError_nonneg[of img img inv_max_err acs bx "by"] show ?thesis by simp
qed

text \<open>
  C2 (as amended). The block error is never negative. The multiplier is at least
  \<open>1\<close> when \<open>max_error > 0.5\<close> and lies in \<open>(0, 1]\<close> when
  \<open>0 < max_error \<le> 0.5\<close>; a non-negative cell therefore never decreases unless
  \<open>max_error < 0.5\<close>.
\<close>

theorem qf_mul_range:
  "0 \<le> BlockMaxError opsin decoded inv_max_err acs bx by \<and>
   (max_error > 0.5 \<longrightarrow> 1 \<le> qf_mul max_error) \<and>
   (0 < max_error \<and> max_error \<le> 0.5 \<longrightarrow> 0 < qf_mul max_error \<and> qf_mul max_error \<le> 1) \<and>
   (0 \<le> q \<and> \<not> max_error < 0.5 \<longrightarrow> q \<le> q * qf_mul max_error)"
proof -
  have "(max_error > 0.5 \<longrightarrow> 1 \<le> qf_mul max_error) \<and>
   (0 < max_error \<and> max_error \<le> 0.5 \<longrightarrow> 0 < qf_mul max_error \<and> qf_mul max_error \<le> 1) \<and>
   (0 \<le> q \<and> \<not> max_error < 0.5 \<longrightarrow> q \<le> q * qf_mul max_error)"
    by (auto simp: qf_mul_def mult_le_cancel_left1)
  with BlockMaxError_nonneg show ?thesis by blast
qed

theorem qf_mul_range_witness:
  "1 \<le> qf_mul 3 \<and> 0 < qf_mul (1/4) \<and> qf_mul (1/4) \<le> 1 \<and> (2::real) \<le> 2 * qf_mul (1/2)"
  using qf_mul_range [of _ _ _ _ _ _ 3 0] qf_mul_range [of _ _ _ _ _ _ "1/4" 0]
    qf_mul_range [of _ _ _ _ _ _ "1/2" 2]
  by simp

text \<open>
  The claim as stated puts the multiplier in \<open>(0, 1]\<close> for every
  \<open>max_error \<le> 0.5\<close>. A varblock that the roundtrip reproduces exactly has
  \<open>max_error = 0\<close>, and its multiplier is \<open>0\<close>: the cells become \<open>0\<close>.
\<close>

theorem qf_mul_zero_counterexample:
  "BlockMaxError \<lparr>xsize3 = 8, ysize3 = 8, PlaneRow = (\<lambda>c y x. 0)\<rparr>
                 \<lparr>xsize3 = 8, ysize3 = 8, PlaneRow = (\<lambda>c y x. 0)\<rparr>
                 (\<lambda>c. 1)
                 \<lparr>IsFirstBlock = True, covered_blocks_x = 1, covered_blocks_y = 1\<rparr> 0 0 \<le> 0.5
   \<and> \<not> 0 < qf_mul (BlockMaxError \<lparr>xsize3 = 8, ysize3 = 8, PlaneRow = (\<lambda>c y x. 0)\<rparr>
                 \<lparr>xsize3 = 8, ysize3 = 8, PlaneRow = (\<lambda>c y x. 0)\<rparr>
                 (\<lambda>c. 1)
                 \<lparr>IsFirstBlock = True, covered_blocks_x = 1, covered_blocks_y = 1\<rparr> 0 0)
   \<and> 1 * qf_mul (BlockMaxError \<lparr>xsize3 = 8, ysize3 = 8, PlaneRow = (\<lambda>c y x. 0)\<rparr>
                 \<lparr>xsize3 = 8, ysize3 = 8, PlaneRow = (\<lambda>c y x. 0)\<rparr>
                 (\<lambda>c. 1)
                 \<lparr>IsFirstBlock = True, covered_blocks_x = 1, covered_blocks_y = 1\<rparr> 0 0) = 0"
  by (simp add: BlockMaxError_same qf_mul_def)

section \<open>The clamp range of the default search\<close>

lemma relb_ge1: "1 \<le> relb"
  by (simp add: relb_def)

lemma relb_pow: "0 < relb ^ k" "1 \<le> relb ^ k"
proof -
  have "0 < relb" using relb_ge1 by linarith
  then show "0 < relb ^ k" by simp
  show "1 \<le> relb ^ k" using relb_ge1 by (rule one_le_power)
qed

lemma near_refl: "0 < y \<Longrightarrow> near 0 y y"
  by (simp add: near_def)

lemma near_pos:
  assumes "near k x y"
  shows "0 < x"
proof -
  from assms have "0 < y" "y / relb ^ k \<le> x" by (simp_all add: near_def)
  moreover from this(1) relb_pow(1)[of k] have "0 < y / relb ^ k" by (rule divide_pos_pos)
  ultimately show ?thesis by linarith
qed

lemma near_trans:
  assumes "near k x y" "near l y z"
  shows "near (k + l) x z"
proof -
  note b = relb_pow(1)[of k] relb_pow(1)[of l]
  from assms have z: "0 < z" and 1: "y / relb ^ k \<le> x" "x \<le> y * relb ^ k"
    and 2: "z / relb ^ l \<le> y" "y \<le> z * relb ^ l" by (simp_all add: near_def)
  have "z / relb ^ l / relb ^ k \<le> y / relb ^ k"
    by (rule divide_right_mono[OF 2(1)]) (rule less_imp_le[OF b(1)])
  moreover have "z / relb ^ l / relb ^ k = z / relb ^ (k + l)" by (simp add: power_add)
  ultimately have lo: "z / relb ^ (k + l) \<le> x" using 1(1) by linarith
  have "y * relb ^ k \<le> z * relb ^ l * relb ^ k"
    by (rule mult_right_mono[OF 2(2)]) (rule less_imp_le[OF b(1)])
  moreover have "z * relb ^ l * relb ^ k = z * relb ^ (k + l)" by (simp add: power_add)
  ultimately have hi: "x \<le> z * relb ^ (k + l)" using 1(2) by linarith
  from z lo hi show ?thesis by (simp add: near_def)
qed

lemma near_mult:
  assumes "near k x y" "near l x' y'"
  shows "near (k + l) (x * x') (y * y')"
proof -
  note b = relb_pow(1)[of k] relb_pow(1)[of l]
  from assms have y: "0 < y" "0 < y'" and 1: "y / relb ^ k \<le> x" "x \<le> y * relb ^ k"
    and 2: "y' / relb ^ l \<le> x'" "x' \<le> y' * relb ^ l" by (simp_all add: near_def)
  have x: "0 < x" "0 < x'" using assms by (auto dest: near_pos)
  have p: "0 \<le> y / relb ^ k" "0 \<le> y' / relb ^ l"
    using y b by (simp_all add: divide_nonneg_pos less_imp_le)
  have "(y / relb ^ k) * (y' / relb ^ l) \<le> x * x'"
    using 1(1) 2(1) p x by (intro mult_mono) simp_all
  moreover have "(y / relb ^ k) * (y' / relb ^ l) = y * y' / relb ^ (k + l)" by (simp add: power_add)
  ultimately have lo: "y * y' / relb ^ (k + l) \<le> x * x'" by linarith
  have "x * x' \<le> (y * relb ^ k) * (y' * relb ^ l)"
    using 1(2) 2(2) y x b by (intro mult_mono) (simp_all add: less_imp_le)
  moreover have "(y * relb ^ k) * (y' * relb ^ l) = y * y' * relb ^ (k + l)" by (simp add: power_add)
  ultimately have hi: "x * x' \<le> y * y' * relb ^ (k + l)" by linarith
  from y lo hi show ?thesis by (simp add: near_def)
qed

lemma near_inverse:
  assumes "near k x y"
  shows "near k (1 / x) (1 / y)"
proof -
  note b = relb_pow(1)[of k]
  from assms have y: "0 < y" and 1: "y / relb ^ k \<le> x" "x \<le> y * relb ^ k" by (simp_all add: near_def)
  have x: "0 < x" using assms by (rule near_pos)
  have yb: "0 < y * relb ^ k" using y b by (rule mult_pos_pos)
  have "1 / (y * relb ^ k) \<le> 1 / x"
    by (rule divide_left_mono[OF 1(2)]) (simp, rule mult_pos_pos[OF yb x])
  moreover have "1 / (y * relb ^ k) = 1 / y / relb ^ k" by simp
  ultimately have lo: "1 / y / relb ^ k \<le> 1 / x" by linarith
  have yd: "0 < y / relb ^ k" using y b by (rule divide_pos_pos)
  have "1 / x \<le> 1 / (y / relb ^ k)"
    by (rule divide_left_mono[OF 1(1)]) (simp, rule mult_pos_pos[OF x yd])
  moreover have "1 / (y / relb ^ k) = 1 / y * relb ^ k" by simp
  ultimately have hi: "1 / x \<le> 1 / y * relb ^ k" by linarith
  from y lo hi show ?thesis by (simp add: near_def)
qed

lemma near_div:
  assumes "near k x y" "near l x' y'"
  shows "near (k + l) (x / x') (y / y')"
  using near_mult[OF assms(1) near_inverse[OF assms(2)]] by simp

lemma near_sqrt:
  assumes "near k x y"
  shows "near k (sqrt x) (sqrt y)"
proof -
  note b = relb_pow[of k]
  from assms have y: "0 < y" and 1: "y / relb ^ k \<le> x" "x \<le> y * relb ^ k" by (simp_all add: near_def)
  have s: "sqrt (relb ^ k) \<le> relb ^ k"
  proof (rule real_le_lsqrt)
    show "0 \<le> relb ^ k" using b(1) by simp
    have "relb ^ k * 1 \<le> relb ^ k * relb ^ k" using b by (intro mult_left_mono) simp_all
    then show "relb ^ k \<le> (relb ^ k)\<^sup>2" by (simp add: power2_eq_square)
  qed
  have s0: "0 < sqrt (relb ^ k)" using b(1) by simp
  have "sqrt x \<le> sqrt (y * relb ^ k)" using 1(2) by simp
  also have "\<dots> = sqrt y * sqrt (relb ^ k)" by (rule real_sqrt_mult)
  also have "\<dots> \<le> sqrt y * relb ^ k" using s y by (intro mult_left_mono) simp_all
  finally have hi: "sqrt x \<le> sqrt y * relb ^ k" .
  have "sqrt y / relb ^ k \<le> sqrt y / sqrt (relb ^ k)"
    using s s0 y by (intro divide_left_mono) simp_all
  also have "\<dots> = sqrt (y / relb ^ k)" by (simp add: real_sqrt_divide)
  also have "\<dots> \<le> sqrt x" using 1(1) by simp
  finally have lo: "sqrt y / relb ^ k \<le> sqrt x" .
  from y lo hi show ?thesis by (simp add: near_def)
qed

lemma near_bounds:
  assumes "near k x y" "k \<le> 16"
  shows "y / 2 \<le> x" "x \<le> 2 * y"
proof -
  from assms(1) have y: "0 < y" and 1: "y / relb ^ k \<le> x" "x \<le> y * relb ^ k" by (simp_all add: near_def)
  have "relb ^ k \<le> relb ^ 16" using assms(2) relb_ge1 by (rule power_increasing)
  also have "\<dots> \<le> 2" by (simp add: relb_def power_divide)
  finally have b2: "relb ^ k \<le> 2" .
  have "y / 2 \<le> y / relb ^ k" using b2 relb_pow(1)[of k] y by (intro divide_left_mono) simp_all
  with 1(1) show "y / 2 \<le> x" by linarith
  have "y * relb ^ k \<le> y * 2" using b2 y by (intro mult_left_mono) simp_all
  with 1(2) show "x \<le> 2 * y" by linarith
qed

lemma near_round:
  assumes "2 powi (- 126) \<le> x"
  shows "near 1 (rnd x) x"
proof -
  have x: "0 < x" using assms pow2_pos[of "- 126"] by linarith
  then have ax: "\<bar>x\<bar> = x" by simp
  from rnd_rel_err[of x] assms ax have e: "\<bar>rnd x - x\<bar> \<le> x / 2 ^ 24" by simp
  have "x / relb \<le> x - x / 2 ^ 24"
  proof -
    have "x / relb = x * (2 ^ 23 / (2 ^ 23 + 1))" by (simp add: relb_def field_simps)
    also have "\<dots> \<le> x * (1 - 1 / 2 ^ 24)" using x by (intro mult_left_mono) simp_all
    finally show ?thesis by (simp add: algebra_simps)
  qed
  moreover have "x + x / 2 ^ 24 \<le> x * relb"
  proof -
    have "x + x / 2 ^ 24 = x * (1 + 1 / 2 ^ 24)" by (simp add: algebra_simps)
    also have "\<dots> \<le> x * relb" using x by (intro mult_left_mono) (simp_all add: relb_def)
    finally show ?thesis .
  qed
  moreover from e have "rnd x - x \<le> x / 2 ^ 24" "- (x / 2 ^ 24) \<le> rnd x - x"
    by (simp_all only: abs_le_iff minus_diff_eq) linarith+
  ultimately have "x / relb \<le> rnd x" "rnd x \<le> x * relb" by linarith+
  with x show ?thesis by (simp add: near_def)
qed


lemma pack_near:
  assumes "2 powi (- 126) \<le> x" "x < 2 ^ 127"
  obtains r where "pack s x = Fin r" "near 1 r x"
proof -
  have n: "near 1 (rnd x) x" using assms(1) by (rule near_round)
  then have p: "0 < rnd x" by (rule near_pos)
  from near_bounds(2)[OF n] assms(2) have "rnd x < huge32" by (simp add: huge32_def)
  with p have "pack s x = Fin (rnd x)" by (intro pack_eval) simp_all
  then show ?thesis using n by (rule that)
qed

lemma fdiv_near:
  assumes "0 < a" "0 < c" "2 powi (- 126) \<le> a / c" "a / c < 2 ^ 127"
  obtains r where "fdiv (Fin a) (Fin c) = Fin r" "near 1 r (a / c)"
proof -
  have "fdiv (Fin a) (Fin c) = pack False (a / c)" using assms(1,2) by (simp add: fdiv_def)
  with pack_near[OF assms(3,4), of False] show ?thesis using that by auto
qed

lemma fmul_near:
  assumes "0 < a" "0 < c" "2 powi (- 126) \<le> a * c" "a * c < 2 ^ 127"
  obtains r where "fmul (Fin a) (Fin c) = Fin r" "near 1 r (a * c)"
proof -
  have "fmul (Fin a) (Fin c) = pack False (a * c)" using assms(1,2) by (simp add: fmul_def)
  with pack_near[OF assms(3,4), of False] show ?thesis using that by auto
qed

lemma fsqrt_near:
  assumes "0 < a" "2 powi (- 126) \<le> sqrt a" "sqrt a < 2 ^ 127"
  obtains r where "fsqrt (Fin a) = Fin r" "near 1 r (sqrt a)"
proof -
  have "fsqrt (Fin a) = pack False (sqrt a)" using assms(1) by (simp add: fsqrt_def)
  with pack_near[OF assms(2,3), of False] show ?thesis using that by auto
qed

lemma band_form:
  assumes "fle (Fin (2 powi (- 60))) a" "fle a (Fin (2 ^ 60))"
  obtains c where "a = Fin c" "2 powi (- 60) \<le> c" "c \<le> 2 ^ 60"
proof (cases a)
  case (Fin c)
  with assms that show ?thesis by (simp add: fle_def)
next
  case NegZero
  with assms(1) pow2_pos[of "- 60"] show ?thesis by (simp add: fle_def)
next
  case PInf
  with assms(2) show ?thesis by (simp add: fle_def huge32_def)
next
  case NInf
  with assms(1) pow2_pos[of "- 60"] huge32_pos show ?thesis by (simp add: fle_def)
next
  case NaN
  with assms show ?thesis by (simp add: fle_def)
qed

lemma ImageMinMax_band:
  assumes "0 < xsize f" "0 < ysize f"
    and "\<forall>y<ysize f. \<forall>x<xsize f. fle (Fin (2 powi (- 60))) (Row f y x) \<and> fle (Row f y x) (Fin (2 ^ 60))"
  shows "\<exists>m M. ImageMinMax f = (Fin m, Fin M) \<and> 2 powi (- 60) \<le> m \<and> m \<le> M \<and> M \<le> 2 ^ 60"
proof -
  let ?P = "\<lambda>s. \<exists>m M. s = (Fin m, Fin M) \<and> 2 powi (- 60) \<le> m \<and> m \<le> M \<and> M \<le> 2 ^ 60"
  have cell: "\<exists>c. Row f y x = Fin c \<and> 2 powi (- 60) \<le> c \<and> c \<le> 2 ^ 60"
    if "y < ysize f" "x < xsize f" for y x
  proof -
    from assms(3) that
    have "fle (Fin (2 powi (- 60))) (Row f y x)" "fle (Row f y x) (Fin (2 ^ 60))" by simp_all
    then show ?thesis by (rule band_form) blast
  qed
  show ?thesis unfolding ImageMinMax_def
  proof (rule for_loop_invariant[where P = ?P])
    from cell[OF assms(2,1)] show "?P (Row f 0 0, Row f 0 0)" by auto
  next
    fix y s assume y: "y < ysize f" and s: "?P s"
    show "?P (for_loop 0 (xsize f) (\<lambda>x (mn, mx). (std_min mn (Row f y x), std_max mx (Row f y x))) s)"
    proof (rule for_loop_invariant[where P = ?P])
      show "?P s" by fact
    next
      fix x s' assume x: "x < xsize f" and s': "?P s'"
      from s' obtain m M where mM: "s' = (Fin m, Fin M)" "2 powi (- 60) \<le> m" "m \<le> M" "M \<le> 2 ^ 60"
        by blast
      from cell[OF y x] obtain c where c: "Row f y x = Fin c" "2 powi (- 60) \<le> c" "c \<le> 2 ^ 60"
        by blast
      show "?P (case s' of (mn, mx) \<Rightarrow> (std_min mn (Row f y x), std_max mx (Row f y x)))"
        using mM c by (auto simp: std_min_def std_max_def flt_def)
    qed
  qed
qed


lemma near_trans':
  assumes "near k x y" "near l y z" "k + l = n"
  shows "near n x z"
  using near_trans[OF assms(1,2)] assms(3) by simp

lemma near_mult':
  assumes "near k x y" "near l x' y'" "k + l = n" "y * y' = z"
  shows "near n (x * x') z"
  using near_mult[OF assms(1,2)] assms(3,4) by simp

lemma near_div':
  assumes "near k x y" "near l x' y'" "k + l = n" "y / y' = z"
  shows "near n (x / x') z"
  using near_div[OF assms(1,2)] assms(3,4) by simp

lemma relb_margin: "250 * relb ^ 11 < 253"
  by (simp add: relb_def power_divide)

lemma near_253:
  assumes "near k q 250" "k \<le> 11"
  shows "q < 253"
proof -
  from assms(1) have "q \<le> 250 * relb ^ k" by (simp add: near_def)
  also have "\<dots> \<le> 250 * relb ^ 11"
    using power_increasing[OF assms(2) relb_ge1] by simp
  also note relb_margin
  finally show ?thesis .
qed

lemma in_range:
  assumes "near k x y" "k \<le> 16" "L \<le> y" "y \<le> U" "2 powi (- 126) \<le> L / 2" "2 * U < 2 ^ 127"
  shows "2 powi (- 126) \<le> x" "x < 2 ^ 127"
proof -
  note b = near_bounds[OF assms(1,2)]
  from b(1) assms(3,5) show "2 powi (- 126) \<le> x" by linarith
  from b(2) assms(4,6) show "x < 2 ^ 127" by linarith
qed

lemma range_chain:
  assumes mm: "ImageMinMax f = (Fin m, Fin M)"
    and m: "2 powi (- 60) \<le> m" "m \<le> M" "M \<le> 2 ^ 60"
  shows "\<exists>lo hi. QuantFieldRange f = Some (lo, hi) \<and> flt (fdiv hi lo) (Fin 253)"
proof -
  have l60: "(2::real) powi (- 60) = 1 / 2 ^ 60" by (simp add: power_int_minus field_simps)
  have m1: "1 / 2 ^ 60 \<le> m" using m(1) unfolding l60 .
  have mp: "0 < m" "0 < M" using m pow2_pos[of "- 60"] by linarith+
  have M1: "1 / 2 ^ 60 \<le> M" using m1 m(2) by linarith
  define R where "R = M / m"
  have R1: "1 \<le> R" using m(2) mp by (simp add: R_def)
  have R2: "R \<le> 2 ^ 120"
  proof -
    have "(2::real) ^ 60 = 2 ^ 120 * (1 / 2 ^ 60)" by simp
    also have "\<dots> \<le> 2 ^ 120 * m" using m1 by (intro mult_left_mono) simp_all
    finally have "M \<le> 2 ^ 120 * m" using m(3) by linarith
    then show ?thesis using mp by (simp add: R_def pos_divide_le_eq)
  qed
  have Rp: "0 < R" using R1 by linarith
  define T where "T = 250 / R"
  have T1: "250 / 2 ^ 120 \<le> T" unfolding T_def using R2 Rp by (intro divide_left_mono) simp_all
  have T2: "T \<le> 250" unfolding T_def using R1 Rp by (simp add: pos_divide_le_eq)
  have Tp: "0 < T" using Rp by (simp add: T_def)
  define D where "D = sqrt T"
  have Dp: "0 < D" using Tp by (simp add: D_def)
  have DD: "D * D = T" using Tp by (simp add: D_def)
  have D2: "D \<le> 16"
  proof -
    have "sqrt T \<le> sqrt (16 * 16)" using T2 by (intro real_sqrt_le_mono) simp
    then show ?thesis by (simp add: D_def)
  qed
  have D1: "1 / 2 ^ 57 \<le> D"
  proof -
    have "(1 / 2 ^ 57)\<^sup>2 \<le> T" using T1 by (simp add: power2_eq_square)
    then show ?thesis unfolding D_def by (rule real_le_rsqrt)
  qed
  have RT: "R * T = 250" using Rp by (simp add: T_def)

  obtain r where r: "fdiv (Fin M) (Fin m) = Fin r" "near 1 r R"
    unfolding R_def
  proof (rule fdiv_near[OF mp(2,1)])
    have "(2::real) powi (- 126) \<le> 1" by (simp add: power_int_minus)
    with R1 show "2 powi (- 126) \<le> M / m" unfolding R_def by linarith
    have "(2::real) ^ 120 < 2 ^ 127" by simp
    with R2 show "M / m < 2 ^ 127" unfolding R_def by linarith
  qed
  have rp: "0 < r" using r(2) by (rule near_pos)
  have n1: "near 1 (250 / r) T"
    by (rule near_div'[OF near_refl[of 250] r(2)]) (simp_all add: T_def)
  obtain t where t: "fdiv (Fin 250) (Fin r) = Fin t" "near 1 t (250 / r)"
    proof (rule fdiv_near[OF _ rp, of 250])
      show "(0::real) < 250" by simp
      show "2 powi (- 126) \<le> 250 / r"
        by (rule in_range(1)[OF n1 _ T1 T2]) (simp_all add: power_int_minus)
      show "250 / r < 2 ^ 127"
        by (rule in_range(2)[OF n1 _ T1 T2]) (simp_all add: power_int_minus)
    qed
  have nt: "near 2 t T" by (rule near_trans'[OF t(2) n1]) simp
  have tp: "0 < t" using nt by (rule near_pos)
  have ns: "near 2 (sqrt t) D" unfolding D_def using nt by (rule near_sqrt)
  obtain dv where dv: "fsqrt (Fin t) = Fin dv" "near 1 dv (sqrt t)"
    proof (rule fsqrt_near[OF tp])
      show "2 powi (- 126) \<le> sqrt t"
        by (rule in_range(1)[OF ns _ D1 D2]) (simp_all add: power_int_minus)
      show "sqrt t < 2 ^ 127"
        by (rule in_range(2)[OF ns _ D1 D2]) (simp_all add: power_int_minus)
    qed
  have ndv: "near 3 dv D" by (rule near_trans'[OF dv(2) ns]) simp
  have dvp: "0 < dv" using ndv by (rule near_pos)
  have hM: "2 powi (- 126) \<le> M" "M < 2 ^ 127"
  proof -
    have "(2::real) powi (- 126) \<le> 1 / 2 ^ 60" by (simp add: power_int_minus)
    with M1 show "2 powi (- 126) \<le> M" by linarith
    have "(2::real) ^ 60 < 2 ^ 127" by simp
    with m(3) show "M < 2 ^ 127" by linarith
  qed
  have q253: "\<exists>lo hi. QuantFieldRange f = Some (lo, hi) \<and> flt (fdiv hi lo) (Fin 253)"
    if q: "fdiv (Fin hi) (Fin lo) = Fin q" "q < 253"
      and e: "QuantFieldRange f =
        (if flt (fdiv (Fin hi) (Fin lo)) (Fin 253) then Some (Fin lo, Fin hi) else None)"
    for hi lo q
  proof -
    from q have "flt (fdiv (Fin hi) (Fin lo)) (Fin 253)" by (simp add: flt_def)
    with e show ?thesis by simp
  qed
  show ?thesis
  proof (cases "dv < 2")
    case True
    have n4: "near 6 (dv * dv) T" by (rule near_mult'[OF ndv ndv]) (simp_all add: DD)
    obtain a1 where a1: "fmul (Fin dv) (Fin dv) = Fin a1" "near 1 a1 (dv * dv)"
    proof (rule fmul_near[OF dvp dvp])
      show "2 powi (- 126) \<le> dv * dv"
        by (rule in_range(1)[OF n4 _ T1 T2]) (simp_all add: power_int_minus)
      show "dv * dv < 2 ^ 127"
        by (rule in_range(2)[OF n4 _ T1 T2]) (simp_all add: power_int_minus)
    qed
    have na1: "near 7 a1 T" by (rule near_trans'[OF a1(2) n4]) simp
    have a1p: "0 < a1" using na1 by (rule near_pos)
    have mT: "m / T = M / 250" using Rp mp by (simp add: T_def R_def)
    have n5: "near 7 (m / a1) (M / 250)"
      by (rule near_div'[OF near_refl[OF mp(1)] na1]) (simp_all add: mT)
    have b5: "1 / 2 ^ 60 / 250 \<le> M / 250" "M / 250 \<le> 2 ^ 60 / 250"
      using M1 m(3) by (simp_all add: divide_right_mono)
    obtain lo where lo: "fdiv (Fin m) (Fin a1) = Fin lo" "near 1 lo (m / a1)"
    proof (rule fdiv_near[OF mp(1) a1p])
      show "2 powi (- 126) \<le> m / a1"
        by (rule in_range(1)[OF n5 _ b5]) (simp_all add: power_int_minus)
      show "m / a1 < 2 ^ 127"
        by (rule in_range(2)[OF n5 _ b5]) (simp_all add: power_int_minus)
    qed
    have nlo: "near 8 lo (M / 250)" by (rule near_trans'[OF lo(2) n5]) simp
    have lop: "0 < lo" using nlo by (rule near_pos)
    have one: "rnd 1 = 1" using rnd_fix[of "2 ^ 23" 0] by simp
    have a2: "fdiv (Fin dv) (Fin dv) = Fin 1"
      using dvp by (simp add: fdiv_def pack_eval[OF one] huge32_def)
    obtain hi where hi: "fmul (Fin M) (Fin 1) = Fin hi" "near 1 hi M"
    proof -
      have "fmul (Fin M) (Fin 1) = pack False M" using mp by (simp add: fmul_def)
      with pack_near[OF hM, of False] show ?thesis using that by auto
    qed
    have hip: "0 < hi" using hi(2) by (rule near_pos)
    have n8: "near 9 (hi / lo) 250"
      by (rule near_div'[OF hi(2) nlo]) (use mp in simp_all)
    have b8: "(250::real) \<le> 250" by simp
    obtain q where q: "fdiv (Fin hi) (Fin lo) = Fin q" "near 1 q (hi / lo)"
    proof (rule fdiv_near[OF hip lop])
      show "2 powi (- 126) \<le> hi / lo"
        by (rule in_range(1)[OF n8 _ b8 b8]) (simp_all add: power_int_minus)
      show "hi / lo < 2 ^ 127"
        by (rule in_range(2)[OF n8 _ b8 b8]) (simp_all add: power_int_minus)
    qed
    have "near 10 q 250" by (rule near_trans'[OF q(2) n8]) simp
    then have "q < 253" by (rule near_253) simp
    with q(1) show ?thesis
    proof (rule q253)
      show "QuantFieldRange f =
        (if flt (fdiv (Fin hi) (Fin lo)) (Fin 253) then Some (Fin lo, Fin hi) else None)"
        using True
        by (simp add: QuantFieldRange_def mm Let_def r(1) t(1) dv(1) flt_def a1(1) lo(1) a2 hi(1))
    qed
  next
    case False
    have n4: "near 3 (2 * dv) (2 * D)" by (rule near_mult'[OF near_refl[of 2] ndv]) simp_all
    have b4: "2 * (1 / 2 ^ 57) \<le> 2 * D" "2 * D \<le> 2 * 16" using D1 D2 by simp_all
    obtain a1 where a1: "fmul (Fin 2) (Fin dv) = Fin a1" "near 1 a1 (2 * dv)"
    proof (rule fmul_near[OF _ dvp, of 2])
      show "(0::real) < 2" by simp
      show "2 powi (- 126) \<le> 2 * dv"
        by (rule in_range(1)[OF n4 _ b4]) (simp_all add: power_int_minus)
      show "2 * dv < 2 ^ 127"
        by (rule in_range(2)[OF n4 _ b4]) (simp_all add: power_int_minus)
    qed
    have na1: "near 4 a1 (2 * D)" by (rule near_trans'[OF a1(2) n4]) simp
    have a1p: "0 < a1" using na1 by (rule near_pos)
    have n5: "near 4 (m / a1) (m / (2 * D))"
      by (rule near_div'[OF near_refl[OF mp(1)] na1]) simp_all
    have b5: "1 / 2 ^ 65 \<le> m / (2 * D)" "m / (2 * D) \<le> 2 ^ 116"
    proof -
      have "(1 / 2 ^ 60) / (2 * 16) \<le> m / (2 * D)"
        using m1 D2 Dp by (intro frac_le) simp_all
      then show "1 / 2 ^ 65 \<le> m / (2 * D)" by simp
      have "m / (2 * D) \<le> 2 ^ 60 / (2 * (1 / 2 ^ 57))"
        using m mp D1 by (intro frac_le) simp_all
      then show "m / (2 * D) \<le> 2 ^ 116" by simp
    qed
    obtain lo where lo: "fdiv (Fin m) (Fin a1) = Fin lo" "near 1 lo (m / a1)"
    proof (rule fdiv_near[OF mp(1) a1p])
      show "2 powi (- 126) \<le> m / a1"
        by (rule in_range(1)[OF n5 _ b5]) (simp_all add: power_int_minus)
      show "m / a1 < 2 ^ 127"
        by (rule in_range(2)[OF n5 _ b5]) (simp_all add: power_int_minus)
    qed
    have nlo: "near 5 lo (m / (2 * D))" by (rule near_trans'[OF lo(2) n5]) simp
    have lop: "0 < lo" using nlo by (rule near_pos)
    have n6: "near 3 (dv / 2) (D / 2)" by (rule near_div'[OF ndv near_refl[of 2]]) simp_all
    have b6: "1 / 2 ^ 57 / 2 \<le> D / 2" "D / 2 \<le> 16 / 2" using D1 D2 by simp_all
    obtain a2 where a2: "fdiv (Fin dv) (Fin 2) = Fin a2" "near 1 a2 (dv / 2)"
    proof (rule fdiv_near[OF dvp, of 2])
      show "(0::real) < 2" by simp
      show "2 powi (- 126) \<le> dv / 2"
        by (rule in_range(1)[OF n6 _ b6]) (simp_all add: power_int_minus)
      show "dv / 2 < 2 ^ 127"
        by (rule in_range(2)[OF n6 _ b6]) (simp_all add: power_int_minus)
    qed
    have na2: "near 4 a2 (D / 2)" by (rule near_trans'[OF a2(2) n6]) simp
    have a2p: "0 < a2" using na2 by (rule near_pos)
    have n7: "near 4 (M * a2) (M * (D / 2))"
      by (rule near_mult'[OF near_refl[OF mp(2)] na2]) simp_all
    have b7: "1 / 2 ^ 118 \<le> M * (D / 2)" "M * (D / 2) \<le> 2 ^ 63"
    proof -
      have "(1 / 2 ^ 60) * ((1 / 2 ^ 57) / 2) \<le> M * (D / 2)"
        using M1 mp D1 by (intro mult_mono) simp_all
      then show "1 / 2 ^ 118 \<le> M * (D / 2)" by simp
      have "M * (D / 2) \<le> 2 ^ 60 * (16 / 2)"
        using m mp D2 Dp by (intro mult_mono) simp_all
      then show "M * (D / 2) \<le> 2 ^ 63" by simp
    qed
    obtain hi where hi: "fmul (Fin M) (Fin a2) = Fin hi" "near 1 hi (M * a2)"
    proof (rule fmul_near[OF mp(2) a2p])
      show "2 powi (- 126) \<le> M * a2"
        by (rule in_range(1)[OF n7 _ b7]) (simp_all add: power_int_minus)
      show "M * a2 < 2 ^ 127"
        by (rule in_range(2)[OF n7 _ b7]) (simp_all add: power_int_minus)
    qed
    have nhi: "near 5 hi (M * (D / 2))" by (rule near_trans'[OF hi(2) n7]) simp
    have hip: "0 < hi" using nhi by (rule near_pos)
    have ex: "M * (D / 2) / (m / (2 * D)) = 250"
    proof -
      have "M * (D / 2) / (m / (2 * D)) = (M / m) * (D * D)" using mp Dp by (simp add: field_simps)
      also have "\<dots> = R * T" by (simp add: R_def DD)
      finally show ?thesis by (simp add: RT)
    qed
    have n8: "near 10 (hi / lo) 250"
      by (rule near_div'[OF nhi nlo _ ex]) simp
    have b8: "(250::real) \<le> 250" by simp
    obtain q where q: "fdiv (Fin hi) (Fin lo) = Fin q" "near 1 q (hi / lo)"
    proof (rule fdiv_near[OF hip lop])
      show "2 powi (- 126) \<le> hi / lo"
        by (rule in_range(1)[OF n8 _ b8 b8]) (simp_all add: power_int_minus)
      show "hi / lo < 2 ^ 127"
        by (rule in_range(2)[OF n8 _ b8 b8]) (simp_all add: power_int_minus)
    qed
    have "near 11 q 250" by (rule near_trans'[OF q(2) n8]) simp
    then have "q < 253" by (rule near_253) simp
    with q(1) show ?thesis
    proof (rule q253)
      show "QuantFieldRange f =
        (if flt (fdiv (Fin hi) (Fin lo)) (Fin 253) then Some (Fin lo, Fin hi) else None)"
        using False
        by (simp add: QuantFieldRange_def mm Let_def r(1) t(1) dv(1) flt_def a1(1) lo(1) a2(1) hi(1))
    qed
  qed
qed


lemma pow2_100: "rnd (2 powi (- 100)) = 2 powi (- 100)" "rnd (2 ^ 100) = 2 ^ 100"
proof -
  have "rnd (of_int (2 ^ 23) * 2 powi (- 100 - 23)) = of_int (2 ^ 23) * 2 powi (- 100 - 23)"
    by (rule rnd_fix) simp_all
  moreover have "of_int (2 ^ 23) * 2 powi (- 100 - 23) = (2::real) powi (- 100)"
    by (simp add: power_int_minus)
  ultimately show "rnd (2 powi (- 100)) = 2 powi (- 100)" by simp
  show "rnd (2 ^ 100) = 2 ^ 100" by (subst rnd_eval[of 100]) (simp_all add: rne_def)
qed

text \<open>
  C3. For every non-empty quant field whose cells are binary32 numbers between
  \<open>2^-60\<close> and \<open>2^60\<close>, the set-up of FindBestQuantization passes its
  assertion: it returns a clamp range \<open>(qf_lower, qf_higher)\<close> with
  \<open>qf_higher / qf_lower < 253\<close> in binary32 arithmetic (the exact ratio is \<open>250\<close>,
  and at most eleven roundings lie between the two).
\<close>

theorem QuantFieldRange_assertion_holds:
  assumes "0 < xsize f" "0 < ysize f"
    and "\<forall>y<ysize f. \<forall>x<xsize f.
           fle (Fin (2 powi (- 60))) (Row f y x) \<and> fle (Row f y x) (Fin (2 ^ 60))"
  shows "\<exists>lo hi. QuantFieldRange f = Some (lo, hi) \<and> flt (fdiv hi lo) (Fin 253)"
proof -
  from ImageMinMax_band[OF assms] obtain m M
    where "ImageMinMax f = (Fin m, Fin M)" "2 powi (- 60) \<le> m" "m \<le> M" "M \<le> 2 ^ 60"
    by blast
  then show ?thesis by (rule range_chain)
qed

theorem QuantFieldRange_assertion_holds_witness:
  "\<exists>lo hi. QuantFieldRange \<lparr>xsize = 2, ysize = 1, Row = (\<lambda>y x. if x = 0 then Fin 1 else Fin 4)\<rparr>
       = Some (lo, hi) \<and> flt (fdiv hi lo) (Fin 253)"
  by (rule QuantFieldRange_assertion_holds) (simp_all add: fle_def power_int_minus)

text \<open>
  Strictly positive and finite cells are not enough: on the field
  \<open>{2^-100, 2^100}\<close> the quotient \<open>qf_max / qf_min\<close> overflows to infinity, the
  deviation is \<open>0\<close>, \<open>qf_lower\<close> is infinite and \<open>qf_higher\<close> is NaN, and the
  assertion fails.
\<close>

theorem QuantFieldRange_overflow:
  "is_f32 (Fin (2 powi (- 100))) \<and> is_f32 (Fin (2 ^ 100)) \<and>
   flt (Fin 0) (Fin (2 powi (- 100))) \<and> flt (Fin 0) (Fin (2 ^ 100)) \<and>
   QuantFieldRange \<lparr>xsize = 2, ysize = 1,
      Row = (\<lambda>y x. if x = 0 then Fin (2 powi (- 100)) else Fin (2 ^ 100))\<rparr> = None"
proof -
  let ?f = "\<lparr>xsize = 2, ysize = 1,
      Row = (\<lambda>(y::nat) (x::nat). if x = 0 then Fin (2 powi (- 100)) else Fin (2 ^ 100))\<rparr>"
  have p: "(0::real) < 2 powi (- 100)" "(2::real) powi (- 100) < 2 ^ 100" "(2::real) powi (- 100) < huge32"
    by (simp_all add: power_int_minus huge32_def)
  have v: "is_f32 (Fin (2 powi (- 100)))" "is_f32 (Fin (2 ^ 100))"
    unfolding is_f32.simps pow2_100 using p by (simp_all add: huge32_def)
  have mm: "ImageMinMax ?f = (Fin (2 powi (- 100)), Fin (2 ^ 100))"
    using p by (simp add: ImageMinMax_def for_loop_def upt_conv_Cons std_min_def std_max_def flt_def)
  have r: "fdiv (Fin (2 ^ 100)) (Fin (2 powi (- 100))) = PInf"
  proof -
    have "(2::real) ^ 100 / 2 powi (- 100) = 2 ^ 200" by (simp add: power_int_minus)
    moreover have "rnd (2 ^ 200) = 2 ^ 200" by (subst rnd_eval[of 200]) (simp_all add: rne_def)
    ultimately have "pack False (2 ^ 100 / 2 powi (- 100)) = PInf" by (simp add: pack_def huge32_def)
    then show ?thesis using p by (simp add: fdiv_def)
  qed
  have t: "fdiv (Fin 250) PInf = Fin 0" by (simp add: fdiv_def zero32_def)
  have d: "fsqrt (Fin 0) = Fin 0" by (simp add: fsqrt_def pack_def zero32_def huge32_def)
  have a: "flt (Fin 0) (Fin 2)" by (simp add: flt_def)
  have a1: "fmul (Fin 0) (Fin 0) = Fin 0" by (simp add: fmul_def pack_def zero32_def huge32_def)
  have lo: "fdiv (Fin (2 powi (- 100))) (Fin 0) = PInf" using p by (simp add: fdiv_def inf32_def)
  have a2: "fdiv (Fin 0) (Fin 0) = NaN" by (simp add: fdiv_def)
  have hi: "fmul (Fin (2 ^ 100)) NaN = NaN" by (simp add: fmul_def)
  have q: "fdiv NaN PInf = NaN" by (simp add: fdiv_def)
  have "QuantFieldRange ?f = None"
    unfolding QuantFieldRange_def mm Let_def prod.case r t d
    by (simp only: a if_True a1 lo a2 hi q) (simp add: flt_def)
  with v p show ?thesis by (simp add: flt_def)
qed

section \<open>The exponent table and the update step\<close>

lemma cur_pow_early: "i < 2 \<Longrightarrow> cur_pow i t = 0.2"
  by (auto simp: cur_pow_def kPow_def kPowMod_def less_Suc_eq numeral_2_eq_2 nth_Cons')

lemma cur_pow_late: "2 \<le> i \<Longrightarrow> cur_pow i t = 0"
proof -
  assume "2 \<le> i"
  then consider "i = 2" | "i = 3" | "i = 4" | "i = 5" | "i = 6" | "7 \<le> i" by linarith
  then show ?thesis
    by cases (simp_all add: cur_pow_def kPow_def kPowMod_def)
qed

lemma fifth_root_of_32nd: "(1/32 :: real) powr (1/5) = 1/2"
proof -
  have "((1/2 :: real) powr 5) powr (1/5) = (1/2) powr (5 * (1/5))" by (rule powr_powr)
  moreover have "(1/2 :: real) powr 5 = 1/32" by (simp add: power_divide)
  ultimately show ?thesis by simp
qed

lemma UpdateStep_zero_pow:
  assumes "cur_pow i t = 0"
  shows "Row (UpdateStep i igs sc lo hi t dm qf) y x =
           (if y < ysize qf \<and> x < xsize qf then
              ClampQuant lo hi
                (if Row dm y x / t > 1 then RaiseQuant igs sc (Row dm y x / t) (Row qf y x)
                 else Row qf y x)
            else Row qf y x)"
proof -
  define g where "g = (\<lambda>y x q. ClampQuant lo hi
                (if Row dm y x / t > 1 then RaiseQuant igs sc (Row dm y x / t) q else q))"
  have "Row (UpdateStep i igs sc lo hi t dm qf) =
          for_loop 0 (ysize qf) (\<lambda>y. for_loop 0 (xsize qf) (\<lambda>x r. store r y x (g y x (r y x))))
            (Row qf)"
    using assms by (simp add: UpdateStep_def Let_def g_def)
  also have "\<dots> = (\<lambda>y x. if y < ysize qf \<and> x < xsize qf then g y x (Row qf y x) else Row qf y x)"
    by (rule image_loop_pointwise)
  finally show ?thesis by (simp add: g_def)
qed

lemma UpdateStep_nonzero_pow:
  assumes "cur_pow i t \<noteq> 0"
  shows "Row (UpdateStep i igs sc lo hi t dm qf) y x =
           (if y < ysize qf \<and> x < xsize qf then
              ClampQuant lo hi
                (if Row dm y x / t \<le> 1 then Row qf y x * (Row dm y x / t) powr cur_pow i t
                 else RaiseQuant igs sc (Row dm y x / t) (Row qf y x))
            else Row qf y x)"
proof -
  define g where "g = (\<lambda>y x q. ClampQuant lo hi
                (if Row dm y x / t \<le> 1 then q * (Row dm y x / t) powr cur_pow i t
                 else RaiseQuant igs sc (Row dm y x / t) q))"
  have "Row (UpdateStep i igs sc lo hi t dm qf) =
          for_loop 0 (ysize qf) (\<lambda>y. for_loop 0 (xsize qf) (\<lambda>x r. store r y x (g y x (r y x))))
            (Row qf)"
    using assms by (simp add: UpdateStep_def Let_def g_def)
  also have "\<dots> = (\<lambda>y x. if y < ysize qf \<and> x < xsize qf then g y x (Row qf y x) else Row qf y x)"
    by (rule image_loop_pointwise)
  finally show ?thesis by (simp add: g_def)
qed

text \<open>
  C1 (as amended). The exponent is \<open>0.2\<close> in iterations \<open>0\<close> and \<open>1\<close> and \<open>0\<close>
  from iteration \<open>2\<close> on, whatever the target. From iteration \<open>2\<close> on the
  update runs the \<^verbatim>\<open>cur_pow == 0\<close> loop, and a cell with
  \<open>tile_distmap / butteraugli_target \<le> 1\<close> that lies inside
  \<open>[qf_lower, qf_higher]\<close> keeps its value.
\<close>

theorem UpdateStep_exponent:
  "(i < 2 \<longrightarrow> cur_pow i t = 0.2) \<and>
   (2 \<le> i \<longrightarrow> cur_pow i t = 0 \<and>
      (\<forall>y<ysize qf. \<forall>x<xsize qf.
         Row dm y x / t \<le> 1 \<and> lo \<le> Row qf y x \<and> Row qf y x \<le> hi \<longrightarrow>
         Row (UpdateStep i igs sc lo hi t dm qf) y x = Row qf y x))"
proof (intro conjI impI allI)
  assume "i < 2"
  then show "cur_pow i t = 0.2" by (rule cur_pow_early)
next
  assume "2 \<le> i"
  then show "cur_pow i t = 0" by (rule cur_pow_late)
next
  fix y x
  assume i: "2 \<le> i" and y: "y < ysize qf" and x: "x < xsize qf"
    and h: "Row dm y x / t \<le> 1 \<and> lo \<le> Row qf y x \<and> Row qf y x \<le> hi"
  from i have "cur_pow i t = 0" by (rule cur_pow_late)
  then show "Row (UpdateStep i igs sc lo hi t dm qf) y x = Row qf y x"
    using y x h by (simp add: UpdateStep_zero_pow ClampQuant_def)
qed

theorem UpdateStep_exponent_witness:
  "cur_pow 1 3 = 0.2 \<and> cur_pow 2 3 = 0 \<and>
   Row (UpdateStep 2 1 1 (1/4) 4 1
          \<lparr>xsize = 1, ysize = 1, Row = (\<lambda>y x. 1/32)\<rparr>
          \<lparr>xsize = 1, ysize = 1, Row = (\<lambda>y x. 1)\<rparr>) 0 0 = 1"
  using UpdateStep_exponent [of 1 3]
    UpdateStep_exponent [of 2 3]
    UpdateStep_exponent [of 2 1 "\<lparr>xsize = 1, ysize = 1, Row = (\<lambda>y x. 1)\<rparr>"
      "\<lparr>xsize = 1, ysize = 1, Row = (\<lambda>y x. 1/32)\<rparr>" "1/4" 4 1 1]
  by simp

text \<open>
  The claim as stated has the exponent \<open>0\<close> in every iteration. In iteration \<open>0\<close>
  the table gives \<open>0.2\<close>, the \<^verbatim>\<open>else\<close> loop runs, and a cell of value \<open>1\<close> whose
  tile distance is \<open>1/32\<close> of the target is halved.
\<close>

theorem UpdateStep_first_round_counterexample:
  "cur_pow 0 1 \<noteq> 0 \<and>
   Row \<lparr>xsize = 1, ysize = 1, Row = (\<lambda>y x. 1/32)\<rparr> 0 0 / 1 \<le> (1::real) \<and>
   Row (UpdateStep 0 1 1 (1/4) 4 1
          \<lparr>xsize = 1, ysize = 1, Row = (\<lambda>y x. 1/32)\<rparr>
          \<lparr>xsize = 1, ysize = 1, Row = (\<lambda>y x. 1)\<rparr>) 0 0 = 1/2"
proof -
  have c: "cur_pow 0 1 = 1/5" using cur_pow_early [of 0 1] by simp
  then have nz: "cur_pow 0 1 \<noteq> 0" by simp
  show ?thesis
    by (simp add: UpdateStep_nonzero_pow [OF nz] c ClampQuant_def fifth_root_of_32nd)
qed

section \<open>Broadcasting block maxima\<close>

lemma fill_row:
  "for_loop 0 W (\<lambda>ix q. store q Y (x + ix) m) q =
     (\<lambda>y' x'. if y' = Y \<and> x \<le> x' \<and> x' < x + W then m else q y' x')"
proof (rule for_loop_induct[where P = "\<lambda>w r. r = (\<lambda>y' x'. if y' = Y \<and> x \<le> x' \<and> x' < x + w then m else q y' x')"])
  show "0 \<le> W" by simp
  show "q = (\<lambda>y' x'. if y' = Y \<and> x \<le> x' \<and> x' < x + 0 then m else q y' x')" by (intro ext) auto
next
  fix i r
  assume "i < W" and r: "r = (\<lambda>y' x'. if y' = Y \<and> x \<le> x' \<and> x' < x + i then m else q y' x')"
  show "store r Y (x + i) m = (\<lambda>y' x'. if y' = Y \<and> x \<le> x' \<and> x' < x + Suc i then m else q y' x')"
    by (intro ext) (auto simp: store_apply r)
qed

lemma FillBlock_apply:
  "FillBlock acs x y m q y' x' =
     (if y \<le> y' \<and> y' < y + covered_blocks_y acs \<and> x \<le> x' \<and> x' < x + covered_blocks_x acs
      then m else q y' x')"
proof -
  have "FillBlock acs x y m q =
          (\<lambda>y' x'. if y \<le> y' \<and> y' < y + covered_blocks_y acs \<and> x \<le> x' \<and> x' < x + covered_blocks_x acs
                    then m else q y' x')"
    unfolding FillBlock_def fill_row
  proof (rule for_loop_induct[where P = "\<lambda>h r. r = (\<lambda>y' x'. if y \<le> y' \<and> y' < y + h \<and> x \<le> x' \<and> x' < x + covered_blocks_x acs then m else q y' x')"])
    show "0 \<le> covered_blocks_y acs" by simp
    show "q = (\<lambda>y' x'. if y \<le> y' \<and> y' < y + 0 \<and> x \<le> x' \<and> x' < x + covered_blocks_x acs then m else q y' x')"
      by (intro ext) auto
  next
    fix i r
    assume r: "r = (\<lambda>y' x'. if y \<le> y' \<and> y' < y + i \<and> x \<le> x' \<and> x' < x + covered_blocks_x acs then m else q y' x')"
    show "(\<lambda>y' x'. if y' = y + i \<and> x \<le> x' \<and> x' < x + covered_blocks_x acs then m else r y' x') =
          (\<lambda>y' x'. if y \<le> y' \<and> y' < y + Suc i \<and> x \<le> x' \<and> x' < x + covered_blocks_x acs then m else q y' x')"
      by (intro ext) (auto simp: r)
  qed
  then show ?thesis by simp
qed

lemma max_row:
  fixes q :: "nat \<Rightarrow> nat \<Rightarrow> real"
  shows "m0 \<le> for_loop 0 W (\<lambda>ix m. max (q Y (x + ix)) m) m0 \<and>
         (\<forall>ix<W. q Y (x + ix) \<le> for_loop 0 W (\<lambda>ix m. max (q Y (x + ix)) m) m0) \<and>
         (for_loop 0 W (\<lambda>ix m. max (q Y (x + ix)) m) m0 = m0 \<or>
          (\<exists>ix<W. for_loop 0 W (\<lambda>ix m. max (q Y (x + ix)) m) m0 = q Y (x + ix)))"
proof (rule for_loop_induct[where P = "\<lambda>w m. m0 \<le> m \<and> (\<forall>ix<w. q Y (x + ix) \<le> m) \<and>
         (m = m0 \<or> (\<exists>ix<w. m = q Y (x + ix)))"])
  show "0 \<le> W" by simp
  show "m0 \<le> m0 \<and> (\<forall>ix<0. q Y (x + ix) \<le> m0) \<and> (m0 = m0 \<or> (\<exists>ix<0. m0 = q Y (x + ix)))" by simp
next
  fix i m
  assume "i < W" and h: "m0 \<le> m \<and> (\<forall>ix<i. q Y (x + ix) \<le> m) \<and> (m = m0 \<or> (\<exists>ix<i. m = q Y (x + ix)))"
  show "m0 \<le> max (q Y (x + i)) m \<and> (\<forall>ix<Suc i. q Y (x + ix) \<le> max (q Y (x + i)) m) \<and>
        (max (q Y (x + i)) m = m0 \<or> (\<exists>ix<Suc i. max (q Y (x + i)) m = q Y (x + ix)))"
  proof (intro conjI)
    show "m0 \<le> max (q Y (x + i)) m" using h by (simp add: le_max_iff_disj)
    show "\<forall>ix<Suc i. q Y (x + ix) \<le> max (q Y (x + i)) m"
      using h by (auto simp: less_Suc_eq le_max_iff_disj)
    show "max (q Y (x + i)) m = m0 \<or> (\<exists>ix<Suc i. max (q Y (x + i)) m = q Y (x + ix))"
    proof (cases "q Y (x + i) \<le> m")
      case True
      then have "max (q Y (x + i)) m = m" by (simp add: max_def)
      with h show ?thesis by (auto simp: less_Suc_eq)
    next
      case False
      then have "max (q Y (x + i)) m = q Y (x + i)" by (simp add: max_def)
      then show ?thesis by auto
    qed
  qed
qed

lemma BlockMax_props:
  "q y x \<le> BlockMax acs x y q \<and>
   (\<forall>iy<covered_blocks_y acs. \<forall>ix<covered_blocks_x acs. q (y + iy) (x + ix) \<le> BlockMax acs x y q) \<and>
   (BlockMax acs x y q = q y x \<or>
    (\<exists>iy<covered_blocks_y acs. \<exists>ix<covered_blocks_x acs. BlockMax acs x y q = q (y + iy) (x + ix)))"
  unfolding BlockMax_def
proof (rule for_loop_induct[where P = "\<lambda>h m. q y x \<le> m \<and>
   (\<forall>iy<h. \<forall>ix<covered_blocks_x acs. q (y + iy) (x + ix) \<le> m) \<and>
   (m = q y x \<or> (\<exists>iy<h. \<exists>ix<covered_blocks_x acs. m = q (y + iy) (x + ix)))"])
  show "0 \<le> covered_blocks_y acs" by simp
  show "q y x \<le> q y x \<and> (\<forall>iy<0. \<forall>ix<covered_blocks_x acs. q (y + iy) (x + ix) \<le> q y x) \<and>
        (q y x = q y x \<or> (\<exists>iy<0. \<exists>ix<covered_blocks_x acs. q y x = q (y + iy) (x + ix)))" by simp
next
  fix i m
  let ?W = "covered_blocks_x acs"
  let ?m' = "for_loop 0 ?W (\<lambda>ix m. max (q (y + i) (x + ix)) m) m"
  assume "i < covered_blocks_y acs"
    and h: "q y x \<le> m \<and> (\<forall>iy<i. \<forall>ix<?W. q (y + iy) (x + ix) \<le> m) \<and>
            (m = q y x \<or> (\<exists>iy<i. \<exists>ix<?W. m = q (y + iy) (x + ix)))"
  from max_row[where ?m0.0 = m and q = q and Y = "y + i" and x = x and W = ?W]
  have r: "m \<le> ?m'" "\<forall>ix<?W. q (y + i) (x + ix) \<le> ?m'"
    "?m' = m \<or> (\<exists>ix<?W. ?m' = q (y + i) (x + ix))" by blast+
  show "q y x \<le> ?m' \<and> (\<forall>iy<Suc i. \<forall>ix<?W. q (y + iy) (x + ix) \<le> ?m') \<and>
        (?m' = q y x \<or> (\<exists>iy<Suc i. \<exists>ix<?W. ?m' = q (y + iy) (x + ix)))"
  proof (intro conjI)
    show "q y x \<le> ?m'" using h r(1) by linarith
    show "\<forall>iy<Suc i. \<forall>ix<?W. q (y + iy) (x + ix) \<le> ?m'"
    proof (intro allI impI)
      fix iy ix assume "iy < Suc i" "ix < ?W"
      then consider "iy < i" | "iy = i" by linarith
      then show "q (y + iy) (x + ix) \<le> ?m'"
      proof cases
        case 1
        with h \<open>ix < ?W\<close> have "q (y + iy) (x + ix) \<le> m" by blast
        with r(1) show ?thesis by linarith
      next
        case 2
        with r(2) \<open>ix < ?W\<close> show ?thesis by blast
      qed
    qed
    show "?m' = q y x \<or> (\<exists>iy<Suc i. \<exists>ix<?W. ?m' = q (y + iy) (x + ix))"
      using r(3) h by (metis less_Suc_eq)
  qed
qed


lemma disjoint_cover:
  assumes "BlocksDisjoint ac W H" "yb < H" "xb < W" "yb' < H" "xb' < W"
    "IsFirstBlock (ac yb xb)" "IsFirstBlock (ac yb' xb')"
    "c \<in> covered ac xb yb" "c \<in> covered ac xb' yb'"
  shows "xb = xb' \<and> yb = yb'"
proof (rule ccontr)
  assume "\<not> (xb = xb' \<and> yb = yb')"
  then have ne: "xb \<noteq> xb' \<or> yb \<noteq> yb'" by blast
  from assms(1)[unfolded BlocksDisjoint_def, rule_format, OF assms(2,3,4,5)] assms(6,7) ne
  have "xb + covered_blocks_x (ac yb xb) \<le> xb' \<or> xb' + covered_blocks_x (ac yb' xb') \<le> xb \<or>
        yb + covered_blocks_y (ac yb xb) \<le> yb' \<or> yb' + covered_blocks_y (ac yb' xb') \<le> yb"
    by blast
  with assms(8,9) show False
    by (cases c) (auto simp: covered_def)
qed

lemma BlockMax_cong:
  assumes "q y x = q' y x"
    and "\<And>iy ix. iy < covered_blocks_y acs \<Longrightarrow> ix < covered_blocks_x acs \<Longrightarrow>
           q (y + iy) (x + ix) = q' (y + iy) (x + ix)"
  shows "BlockMax acs x y q = BlockMax acs x y q'"
  unfolding BlockMax_def assms(1)
  by (intro for_loop_cong) (simp add: assms(2))

lemma BlockMax_const:
  assumes "q y x = m"
    and "\<And>iy ix. iy < covered_blocks_y acs \<Longrightarrow> ix < covered_blocks_x acs \<Longrightarrow>
           q (y + iy) (x + ix) = m"
  shows "BlockMax acs x y q = m"
  using BlockMax_props[of q y x acs] assms by metis

lemma visited_Suc:
  "visited W H y0 (Suc x0) yb xb \<longleftrightarrow>
     visited W H y0 x0 yb xb \<or> (yb = y0 \<and> xb = x0 \<and> y0 < H \<and> x0 < W)"
  by (auto simp: visited_def)

lemma visited_row_end: "visited W H y0 W = visited W H (Suc y0) 0"
  by (intro ext) (auto simp: visited_def)

lemma visited_start: "\<not> visited W H 0 0 yb xb"
  by (simp add: visited_def)

lemma visited_all: "visited W H H 0 yb xb \<longleftrightarrow> yb < H \<and> xb < W"
  by (auto simp: visited_def)

lemma visited_bounds: "visited W H y0 x0 yb xb \<Longrightarrow> yb < H \<and> xb < W"
  by (simp add: visited_def)

lemma not_visited_self: "\<not> visited W H y0 x0 y0 x0"
  by (simp add: visited_def)

lemma adjusted_uptoD1:
  assumes "adjusted_upto ac W H q0 y0 x0 r" "visited W H y0 x0 yb xb" "IsFirstBlock (ac yb xb)"
    "(y, x) \<in> covered ac xb yb"
  shows "r y x = BlockMax (ac yb xb) xb yb q0"
  using assms unfolding adjusted_upto_def by blast

lemma adjusted_uptoD2:
  assumes "adjusted_upto ac W H q0 y0 x0 r"
    "\<And>yb xb. visited W H y0 x0 yb xb \<Longrightarrow> IsFirstBlock (ac yb xb) \<Longrightarrow> (y, x) \<notin> covered ac xb yb"
  shows "r y x = q0 y x"
  using assms unfolding adjusted_upto_def by blast

lemma scan_step:
  assumes dis: "BlocksDisjoint ac W H" and y0: "y0 < H" and x0: "x0 < W"
    and st: "scan_state ac W H q0 y0 x0 st"
  shows "scan_state ac W H q0 y0 (Suc x0)
           (case st of
              None \<Rightarrow> None
            | Some q \<Rightarrow>
                let acs = ac y0 x0 in
                if \<not> IsFirstBlock acs then Some q
                else if \<not> x0 + covered_blocks_x acs \<le> W then None
                else if \<not> y0 + covered_blocks_y acs \<le> H then None
                else Some (FillBlock acs x0 y0 (BlockMax acs x0 y0 q) q))"
proof (cases "bounds_upto ac W H y0 x0")
  case False
  with st have "st = None" by (simp add: scan_state_def)
  moreover from False have "\<not> bounds_upto ac W H y0 (Suc x0)"
    unfolding bounds_upto_def visited_Suc by blast
  ultimately show ?thesis by (simp add: scan_state_def)
next
  case True
  with st obtain r where r: "st = Some r" and adj: "adjusted_upto ac W H q0 y0 x0 r"
    by (auto simp: scan_state_def)
  show ?thesis
  proof (cases "IsFirstBlock (ac y0 x0)")
    case False
    have b: "bounds_upto ac W H y0 (Suc x0)"
      using True False unfolding bounds_upto_def visited_Suc by blast
    have same: "visited W H y0 (Suc x0) yb xb \<and> IsFirstBlock (ac yb xb) \<longleftrightarrow>
                visited W H y0 x0 yb xb \<and> IsFirstBlock (ac yb xb)" for yb xb
      using False by (auto simp: visited_Suc)
    have "adjusted_upto ac W H q0 y0 (Suc x0) r"
      using adj unfolding adjusted_upto_def by (simp only: same conj_assoc[symmetric])
    with b False r show ?thesis by (simp add: scan_state_def)
  next
    case first: True
    show ?thesis
    proof (cases "x0 + covered_blocks_x (ac y0 x0) \<le> W \<and> y0 + covered_blocks_y (ac y0 x0) \<le> H")
      case False
      have "\<not> bounds_upto ac W H y0 (Suc x0)"
        unfolding bounds_upto_def visited_Suc using False first y0 x0 by blast
      with False first r show ?thesis by (auto simp: scan_state_def Let_def)
    next
      case inb: True
      have b: "bounds_upto ac W H y0 (Suc x0)"
        using True inb unfolding bounds_upto_def visited_Suc by blast
      let ?acs = "ac y0 x0"
      let ?r' = "FillBlock ?acs x0 y0 (BlockMax ?acs x0 y0 r) r"
      have other: "(y, x) \<notin> covered ac xb yb"
        if "(y, x) \<in> covered ac x0 y0" "visited W H y0 x0 yb xb" "IsFirstBlock (ac yb xb)"
        for y x yb xb
      proof
        assume c: "(y, x) \<in> covered ac xb yb"
        from visited_bounds[OF that(2)] have "yb < H" "xb < W" by simp_all
        from disjoint_cover[OF dis this y0 x0 that(3) first c that(1)]
        have "xb = x0 \<and> yb = y0" .
        with that(2) not_visited_self show False by blast
      qed
      have fresh: "r y x = q0 y x" if "(y, x) \<in> covered ac x0 y0" for y x
        by (rule adjusted_uptoD2[OF adj]) (rule other[OF that])
      have bm: "BlockMax ?acs x0 y0 r = BlockMax ?acs x0 y0 q0"
        if "(y, x) \<in> covered ac x0 y0" for y x
      proof (rule BlockMax_cong)
        from that have "0 < covered_blocks_y ?acs" "0 < covered_blocks_x ?acs"
          by (auto simp: covered_def)
        then have "(y0, x0) \<in> covered ac x0 y0" by (simp add: covered_def)
        then show "r y0 x0 = q0 y0 x0" by (rule fresh)
      next
        fix iy ix assume "iy < covered_blocks_y ?acs" "ix < covered_blocks_x ?acs"
        then have "(y0 + iy, x0 + ix) \<in> covered ac x0 y0" by (simp add: covered_def)
        then show "r (y0 + iy) (x0 + ix) = q0 (y0 + iy) (x0 + ix)" by (rule fresh)
      qed
      have r'_in: "?r' y x = BlockMax ?acs x0 y0 q0" if "(y, x) \<in> covered ac x0 y0" for y x
        using that bm[OF that] by (simp add: FillBlock_apply covered_def)
      have r'_out: "?r' y x = r y x" if "(y, x) \<notin> covered ac x0 y0" for y x
        using that by (auto simp: FillBlock_apply covered_def)
      have "adjusted_upto ac W H q0 y0 (Suc x0) ?r'"
        unfolding adjusted_upto_def
      proof (intro allI conjI impI)
        fix y x yb xb
        assume h: "visited W H y0 (Suc x0) yb xb \<and> IsFirstBlock (ac yb xb) \<and>
                   (y, x) \<in> covered ac xb yb"
        show "?r' y x = BlockMax (ac yb xb) xb yb q0"
        proof (cases "yb = y0 \<and> xb = x0")
          case True
          with h r'_in show ?thesis by simp
        next
          case False
          with h have v: "visited W H y0 x0 yb xb" by (auto simp: visited_Suc)
          have "(y, x) \<notin> covered ac x0 y0"
          proof
            assume "(y, x) \<in> covered ac x0 y0"
            from other[OF this v] h show False by blast
          qed
          then have "?r' y x = r y x" by (rule r'_out)
          also have "\<dots> = BlockMax (ac yb xb) xb yb q0"
            using h by (intro adjusted_uptoD1[OF adj v]) simp_all
          finally show ?thesis .
        qed
      next
        fix y x
        assume h: "\<forall>yb xb. visited W H y0 (Suc x0) yb xb \<and> IsFirstBlock (ac yb xb) \<longrightarrow>
                     (y, x) \<notin> covered ac xb yb"
        have "visited W H y0 (Suc x0) y0 x0" using y0 x0 by (simp add: visited_Suc)
        with h first have "(y, x) \<notin> covered ac x0 y0" by blast
        then have "?r' y x = r y x" by (rule r'_out)
        also have "\<dots> = q0 y x"
        proof (rule adjusted_uptoD2[OF adj])
          fix yb xb assume "visited W H y0 x0 yb xb" "IsFirstBlock (ac yb xb)"
          with h show "(y, x) \<notin> covered ac xb yb" by (simp add: visited_Suc)
        qed
        finally show "?r' y x = q0 y x" .
      qed
      with b first inb r show ?thesis by (auto simp: scan_state_def Let_def)
    qed
  qed
qed

lemma scan_state_row_end:
  "scan_state ac W H q0 y0 W st \<longleftrightarrow> scan_state ac W H q0 (Suc y0) 0 st"
  by (simp only: scan_state_def bounds_upto_def adjusted_upto_def visited_row_end)

lemma scan_all:
  assumes dis: "BlocksDisjoint ac W H"
  shows "scan_state ac W H q0 H 0
           (for_loop 0 H (\<lambda>y. for_loop 0 W (\<lambda>x st.
              case st of
                None \<Rightarrow> None
              | Some q \<Rightarrow>
                  let acs = ac y x in
                  if \<not> IsFirstBlock acs then Some q
                  else if \<not> x + covered_blocks_x acs \<le> W then None
                  else if \<not> y + covered_blocks_y acs \<le> H then None
                  else Some (FillBlock acs x y (BlockMax acs x y q) q)))
            (Some q0))"
proof (rule for_loop_induct[where P = "\<lambda>y st. scan_state ac W H q0 y 0 st"])
  show "0 \<le> H" by simp
  show "scan_state ac W H q0 0 0 (Some q0)"
    by (simp add: scan_state_def bounds_upto_def adjusted_upto_def visited_start)
next
  fix y st
  assume y: "y < H" and st: "scan_state ac W H q0 y 0 st"
  have "scan_state ac W H q0 y W
          (for_loop 0 W (\<lambda>x st.
              case st of
                None \<Rightarrow> None
              | Some q \<Rightarrow>
                  let acs = ac y x in
                  if \<not> IsFirstBlock acs then Some q
                  else if \<not> x + covered_blocks_x acs \<le> W then None
                  else if \<not> y + covered_blocks_y acs \<le> H then None
                  else Some (FillBlock acs x y (BlockMax acs x y q) q)) st)"
  proof (rule for_loop_induct[where P = "\<lambda>x st. scan_state ac W H q0 y x st"])
    show "0 \<le> W" by simp
    show "scan_state ac W H q0 y 0 st" by fact
  next
    fix x st'
    assume "x < W" "scan_state ac W H q0 y x st'"
    with dis y show "scan_state ac W H q0 y (Suc x)
          (case st' of
                None \<Rightarrow> None
              | Some q \<Rightarrow>
                  let acs = ac y x in
                  if \<not> IsFirstBlock acs then Some q
                  else if \<not> x + covered_blocks_x acs \<le> W then None
                  else if \<not> y + covered_blocks_y acs \<le> H then None
                  else Some (FillBlock acs x y (BlockMax acs x y q) q))"
      by (intro scan_step)
  qed
  then show "scan_state ac W H q0 (Suc y) 0
          (for_loop 0 W (\<lambda>x st.
              case st of
                None \<Rightarrow> None
              | Some q \<Rightarrow>
                  let acs = ac y x in
                  if \<not> IsFirstBlock acs then Some q
                  else if \<not> x + covered_blocks_x acs \<le> W then None
                  else if \<not> y + covered_blocks_y acs \<le> H then None
                  else Some (FillBlock acs x y (BlockMax acs x y q) q)) st)"
    by (simp add: scan_state_row_end)
qed

lemma bounds_upto_all: "bounds_upto ac W H H 0 \<longleftrightarrow> BlocksInBounds ac W H"
  unfolding bounds_upto_def BlocksInBounds_def visited_all by auto

lemma adjusted_all_covered:
  assumes "adjusted_upto ac W H q0 H 0 r" "yb < H" "xb < W" "IsFirstBlock (ac yb xb)"
    "(y, x) \<in> covered ac xb yb"
  shows "r y x = BlockMax (ac yb xb) xb yb q0"
  using assms unfolding adjusted_upto_def visited_all by blast

lemma adjusted_all_free:
  assumes "adjusted_upto ac W H q0 H 0 r"
    "\<And>yb xb. yb < H \<Longrightarrow> xb < W \<Longrightarrow> IsFirstBlock (ac yb xb) \<Longrightarrow> (y, x) \<notin> covered ac xb yb"
  shows "r y x = q0 y x"
  using assms unfolding adjusted_upto_def visited_all by blast

lemma AdjustQuantField_result:
  assumes "BlocksDisjoint ac (xsize qf) (ysize qf)"
  shows "if BlocksInBounds ac (xsize qf) (ysize qf)
         then \<exists>r. AdjustQuantField ac qf = Some (qf\<lparr>Row := r\<rparr>) \<and>
                  adjusted_upto ac (xsize qf) (ysize qf) (Row qf) (ysize qf) 0 r
         else AdjustQuantField ac qf = None"
  using scan_all[OF assms, of "Row qf"]
  unfolding AdjustQuantField_def scan_state_def bounds_upto_all
  by (auto split: if_splits)

lemma finite_block_cells: "finite {f jy jx | jy jx. jy < (n::nat) \<and> jx < (m::nat)}"
proof -
  have "{f jy jx | jy jx. jy < n \<and> jx < m} = (\<lambda>(jy, jx). f jy jx) ` ({..<n} \<times> {..<m})"
    by auto
  then show ?thesis by simp
qed

lemma BlockMax_is_Max:
  assumes "0 < covered_blocks_y acs" "0 < covered_blocks_x acs"
  shows "BlockMax acs x y q =
           Max {q (y + jy) (x + jx) | jy jx. jy < covered_blocks_y acs \<and> jx < covered_blocks_x acs}"
proof (rule Max_eqI[symmetric])
  let ?S = "{q (y + jy) (x + jx) | jy jx. jy < covered_blocks_y acs \<and> jx < covered_blocks_x acs}"
  show "finite ?S" by (rule finite_block_cells)
  show "v \<le> BlockMax acs x y q" if "v \<in> ?S" for v
    using that BlockMax_props[of q y x acs] by auto
  have seed: "q y x \<in> ?S"
  proof -
    have "q y x = q (y + 0) (x + 0)" by simp
    with assms show ?thesis by blast
  qed
  from BlockMax_props[of q y x acs]
  have "BlockMax acs x y q = q y x \<or>
        (\<exists>iy<covered_blocks_y acs. \<exists>ix<covered_blocks_x acs. BlockMax acs x y q = q (y + iy) (x + ix))"
    by blast
  then show "BlockMax acs x y q \<in> ?S"
  proof
    assume "BlockMax acs x y q = q y x"
    with seed show ?thesis by simp
  next
    assume "\<exists>iy<covered_blocks_y acs. \<exists>ix<covered_blocks_x acs. BlockMax acs x y q = q (y + iy) (x + ix)"
    then show ?thesis by blast
  qed
qed

text \<open>
  C5. On an AC strategy whose first blocks lie inside the field and do not
  overlap, \<^verbatim>\<open>AdjustQuantField\<close> returns, and in the returned field every cell
  covered by a first block holds the maximum that the cells of this block held
  before the call; so all cells of one block hold the same value.
\<close>

theorem AdjustQuantField_block_max:
  assumes "BlocksInBounds ac (xsize qf) (ysize qf)" "BlocksDisjoint ac (xsize qf) (ysize qf)"
  shows "\<exists>qf'. AdjustQuantField ac qf = Some qf' \<and> xsize qf' = xsize qf \<and> ysize qf' = ysize qf \<and>
           (\<forall>yb<ysize qf. \<forall>xb<xsize qf. IsFirstBlock (ac yb xb) \<longrightarrow>
              (\<forall>iy<covered_blocks_y (ac yb xb). \<forall>ix<covered_blocks_x (ac yb xb).
                 Row qf' (yb + iy) (xb + ix) =
                   Max {Row qf (yb + jy) (xb + jx) | jy jx.
                          jy < covered_blocks_y (ac yb xb) \<and> jx < covered_blocks_x (ac yb xb)}))"
proof -
  from AdjustQuantField_result[OF assms(2)] assms(1)
  obtain r where r: "AdjustQuantField ac qf = Some (qf\<lparr>Row := r\<rparr>)"
    and adj: "adjusted_upto ac (xsize qf) (ysize qf) (Row qf) (ysize qf) 0 r"
    by auto
  have "r (yb + iy) (xb + ix) =
          Max {Row qf (yb + jy) (xb + jx) | jy jx.
                 jy < covered_blocks_y (ac yb xb) \<and> jx < covered_blocks_x (ac yb xb)}"
    if "yb < ysize qf" "xb < xsize qf" "IsFirstBlock (ac yb xb)"
      "iy < covered_blocks_y (ac yb xb)" "ix < covered_blocks_x (ac yb xb)" for yb xb iy ix
  proof -
    have "(yb + iy, xb + ix) \<in> covered ac xb yb" using that by (simp add: covered_def)
    from adjusted_all_covered[OF adj that(1,2,3) this]
    have "r (yb + iy) (xb + ix) = BlockMax (ac yb xb) xb yb (Row qf)" .
    also have "\<dots> = Max {Row qf (yb + jy) (xb + jx) | jy jx.
                 jy < covered_blocks_y (ac yb xb) \<and> jx < covered_blocks_x (ac yb xb)}"
      using that(4,5) by (intro BlockMax_is_Max) auto
    finally show ?thesis .
  qed
  with r show ?thesis by auto
qed

theorem AdjustQuantField_block_max_witness:
  "BlocksInBounds (\<lambda>y x. \<lparr>IsFirstBlock = (x = 0 \<and> y = 0), covered_blocks_x = 2, covered_blocks_y = 2\<rparr>) 2 2 \<and>
   BlocksDisjoint (\<lambda>y x. \<lparr>IsFirstBlock = (x = 0 \<and> y = 0), covered_blocks_x = 2, covered_blocks_y = 2\<rparr>) 2 2 \<and>
   (\<exists>qf'. AdjustQuantField (\<lambda>y x. \<lparr>IsFirstBlock = (x = 0 \<and> y = 0), covered_blocks_x = 2, covered_blocks_y = 2\<rparr>)
             \<lparr>xsize = 2, ysize = 2, Row = (\<lambda>y x. if y = 0 then (if x = 0 then 1 else 2) else (if x = 0 then 3 else 4))\<rparr> = Some qf' \<and>
          Row qf' 0 0 = 4 \<and> Row qf' 0 1 = 4 \<and> Row qf' 1 0 = 4 \<and> Row qf' 1 1 = 4)"
proof -
  let ?ac = "\<lambda>(y::nat) (x::nat). \<lparr>IsFirstBlock = (x = 0 \<and> y = 0), covered_blocks_x = 2, covered_blocks_y = 2\<rparr>"
  let ?qf = "\<lparr>xsize = 2, ysize = 2, Row = (\<lambda>(y::nat) (x::nat). if y = 0 then (if x = 0 then 1 else 2) else (if x = 0 then 3 else (4::real)))\<rparr>"
  have h1: "BlocksInBounds ?ac (xsize ?qf) (ysize ?qf)" by (simp add: BlocksInBounds_def)
  have h2: "BlocksDisjoint ?ac (xsize ?qf) (ysize ?qf)"
    unfolding BlocksDisjoint_def by simp presburger
  from AdjustQuantField_block_max[OF h1 h2]
  obtain qf' where a: "AdjustQuantField ?ac ?qf = Some qf'"
    and c: "\<forall>yb<2. \<forall>xb<2. IsFirstBlock (?ac yb xb) \<longrightarrow>
              (\<forall>iy<2. \<forall>ix<2. Row qf' (yb + iy) (xb + ix) =
                 Max {Row ?qf (yb + jy) (xb + jx) | jy jx. jy < 2 \<and> jx < 2})"
    by auto
  have m: "Max {Row ?qf (0 + jy) (0 + jx) | jy jx. jy < 2 \<and> jx < 2} = 4"
  proof (rule Max_eqI)
    show "finite {Row ?qf (0 + jy) (0 + jx) | jy jx. jy < 2 \<and> jx < 2}"
      by (rule finite_block_cells)
    show "v \<le> 4" if "v \<in> {Row ?qf (0 + jy) (0 + jx) | jy jx. jy < 2 \<and> jx < 2}" for v
      using that by auto
    show "4 \<in> {Row ?qf (0 + jy) (0 + jx) | jy jx. jy < 2 \<and> jx < 2}"
      by (rule CollectI, rule exI[of _ 1], rule exI[of _ 1]) simp
  qed
  from c have "\<forall>iy<2. \<forall>ix<2. Row qf' (0 + iy) (0 + ix) = 4"
    using m by simp
  then have "Row qf' (0 + 0) (0 + 0) = 4 \<and> Row qf' (0 + 0) (0 + 1) = 4 \<and>
             Row qf' (0 + 1) (0 + 0) = 4 \<and> Row qf' (0 + 1) (0 + 1) = 4"
    by simp
  with a h1 h2 show ?thesis by simp
qed

text \<open>
  C6. On an AC strategy whose first blocks do not overlap, a second call of
  \<^verbatim>\<open>AdjustQuantField\<close> changes nothing: running it twice gives the result of
  running it once (an abort of the first call included).
\<close>

theorem AdjustQuantField_idempotent:
  assumes dis: "BlocksDisjoint ac (xsize qf) (ysize qf)"
  shows "Option.bind (AdjustQuantField ac qf) (AdjustQuantField ac) = AdjustQuantField ac qf"
proof (cases "BlocksInBounds ac (xsize qf) (ysize qf)")
  case False
  with AdjustQuantField_result[OF dis] have "AdjustQuantField ac qf = None" by simp
  then show ?thesis by simp
next
  case True
  with AdjustQuantField_result[OF dis]
  obtain r where r: "AdjustQuantField ac qf = Some (qf\<lparr>Row := r\<rparr>)"
    and adj: "adjusted_upto ac (xsize qf) (ysize qf) (Row qf) (ysize qf) 0 r"
    by auto
  let ?qf' = "qf\<lparr>Row := r\<rparr>"
  have dis': "BlocksDisjoint ac (xsize ?qf') (ysize ?qf')" using dis by simp
  have inb': "BlocksInBounds ac (xsize ?qf') (ysize ?qf')" using True by simp
  from AdjustQuantField_result[OF dis'] inb'
  obtain r2 where r2: "AdjustQuantField ac ?qf' = Some (?qf'\<lparr>Row := r2\<rparr>)"
    and adj2: "adjusted_upto ac (xsize qf) (ysize qf) r (ysize qf) 0 r2"
    by auto
  have "r2 y x = r y x" for y x
  proof (cases "\<exists>yb xb. yb < ysize qf \<and> xb < xsize qf \<and> IsFirstBlock (ac yb xb) \<and> (y, x) \<in> covered ac xb yb")
    case True
    then obtain yb xb where b: "yb < ysize qf" "xb < xsize qf" "IsFirstBlock (ac yb xb)"
      and c: "(y, x) \<in> covered ac xb yb" by blast
    let ?m = "BlockMax (ac yb xb) xb yb (Row qf)"
    have cell: "r y' x' = ?m" if "(y', x') \<in> covered ac xb yb" for y' x'
      using adjusted_all_covered[OF adj b that] .
    from c have pos: "0 < covered_blocks_y (ac yb xb)" "0 < covered_blocks_x (ac yb xb)"
      by (auto simp: covered_def)
    have "r2 y x = BlockMax (ac yb xb) xb yb r"
      using adjusted_all_covered[OF adj2 b c] .
    also have "\<dots> = ?m"
    proof (rule BlockMax_const)
      show "r yb xb = ?m" using pos by (intro cell) (simp add: covered_def)
      show "r (yb + iy) (xb + ix) = ?m"
        if "iy < covered_blocks_y (ac yb xb)" "ix < covered_blocks_x (ac yb xb)" for iy ix
        using that by (intro cell) (simp add: covered_def)
    qed
    also have "\<dots> = r y x" using cell[OF c] by simp
    finally show ?thesis .
  next
    case False
    then show ?thesis by (intro adjusted_all_free[OF adj2]) blast
  qed
  then have "r2 = r" by (intro ext)
  with r r2 show ?thesis by simp
qed


theorem AdjustQuantField_idempotent_witness:
  "BlocksDisjoint (\<lambda>y x. \<lparr>IsFirstBlock = (x = 0 \<and> y = 0), covered_blocks_x = 2, covered_blocks_y = 2\<rparr>) 2 2 \<and>
   AdjustQuantField (\<lambda>y x. \<lparr>IsFirstBlock = (x = 0 \<and> y = 0), covered_blocks_x = 2, covered_blocks_y = 2\<rparr>)
     \<lparr>xsize = 2, ysize = 2, Row = (\<lambda>y x. if y = 0 then (if x = 0 then 1 else 2) else (if x = 0 then 3 else 4))\<rparr> \<noteq> None \<and>
   Option.bind
     (AdjustQuantField (\<lambda>y x. \<lparr>IsFirstBlock = (x = 0 \<and> y = 0), covered_blocks_x = 2, covered_blocks_y = 2\<rparr>)
        \<lparr>xsize = 2, ysize = 2, Row = (\<lambda>y x. if y = 0 then (if x = 0 then 1 else 2) else (if x = 0 then 3 else 4))\<rparr>)
     (AdjustQuantField (\<lambda>y x. \<lparr>IsFirstBlock = (x = 0 \<and> y = 0), covered_blocks_x = 2, covered_blocks_y = 2\<rparr>))
   = AdjustQuantField (\<lambda>y x. \<lparr>IsFirstBlock = (x = 0 \<and> y = 0), covered_blocks_x = 2, covered_blocks_y = 2\<rparr>)
       \<lparr>xsize = 2, ysize = 2, Row = (\<lambda>y x. if y = 0 then (if x = 0 then 1 else 2) else (if x = 0 then 3 else 4))\<rparr>"
proof -
  let ?ac = "\<lambda>(y::nat) (x::nat). \<lparr>IsFirstBlock = (x = 0 \<and> y = 0), covered_blocks_x = 2, covered_blocks_y = 2\<rparr>"
  let ?qf = "\<lparr>xsize = 2, ysize = 2, Row = (\<lambda>(y::nat) (x::nat). if y = 0 then (if x = 0 then 1 else 2) else (if x = 0 then 3 else (4::real)))\<rparr>"
  have h1: "BlocksInBounds ?ac (xsize ?qf) (ysize ?qf)" by (simp add: BlocksInBounds_def)
  have h2: "BlocksDisjoint ?ac (xsize ?qf) (ysize ?qf)"
    unfolding BlocksDisjoint_def by simp presburger
  from AdjustQuantField_result[OF h2] h1 have "AdjustQuantField ?ac ?qf \<noteq> None" by auto
  with AdjustQuantField_idempotent[OF h2] h2 show ?thesis by simp
qed

text \<open>
  The hypothesis on the strategy is needed. On a grid where the first block at
  column \<open>0\<close> and the first block at column \<open>1\<close> both cover two cells, the field
  \<open>1, 1, 2\<close> becomes \<open>1, 2, 2\<close>, and a second call raises it to \<open>2, 2, 2\<close>.
\<close>

lemma AdjustQuantField_overlapping_blocks:
  "Option.bind (AdjustQuantField (\<lambda>y x. \<lparr>IsFirstBlock = (y = 0 \<and> x < 2), covered_blocks_x = 2, covered_blocks_y = 1\<rparr>)
             \<lparr>xsize = 3, ysize = 1, Row = (\<lambda>y x. if x = 2 then 2 else 1)\<rparr>)
       (\<lambda>qf. Some (Row qf 0 0, Row qf 0 1, Row qf 0 2)) = Some (1, 2, 2) \<and>
   Option.bind (Option.bind (AdjustQuantField (\<lambda>y x. \<lparr>IsFirstBlock = (y = 0 \<and> x < 2), covered_blocks_x = 2, covered_blocks_y = 1\<rparr>)
             \<lparr>xsize = 3, ysize = 1, Row = (\<lambda>y x. if x = 2 then 2 else 1)\<rparr>)
             (AdjustQuantField (\<lambda>y x. \<lparr>IsFirstBlock = (y = 0 \<and> x < 2), covered_blocks_x = 2, covered_blocks_y = 1\<rparr>)))
       (\<lambda>qf. Some (Row qf 0 0, Row qf 0 1, Row qf 0 2)) = Some (2, 2, 2)"
  by (simp add: AdjustQuantField_def for_loop_unroll FillBlock_def BlockMax_def store_apply Let_def)

section \<open>Distance to the nearest peak\<close>

lemma StampPeak_apply:
  "StampPeak field R x0 y0 res y x =
     (if window_min y0 R \<le> y \<and> y < window_max (ysize field) y0 R \<and>
         window_min x0 R \<le> x \<and> x < window_max (xsize field) x0 R \<and>
         (res y x < 0 \<or> res y x > real_of_int (max \<bar>int y - int y0\<bar> \<bar>int x - int x0\<bar>))
      then real_of_int (max \<bar>int y - int y0\<bar> \<bar>int x - int x0\<bar>)
      else res y x)"
proof -
  define g where "g = (\<lambda>(y::nat) (x::nat) (v::real).
      if v < 0 \<or> v > real_of_int (max \<bar>int y - int y0\<bar> \<bar>int x - int x0\<bar>)
      then real_of_int (max \<bar>int y - int y0\<bar> \<bar>int x - int x0\<bar>) else v)"
  have body: "(let dist = real_of_int (max \<bar>int y - int y0\<bar> \<bar>int x - int x0\<bar>); cur_dist = r y x
               in if cur_dist < 0.0 \<or> cur_dist > dist then store r y x dist else r)
              = store r y x (g y x (r y x))" for y x and r :: "nat \<Rightarrow> nat \<Rightarrow> real"
    by (simp add: g_def Let_def store_same)
  have "StampPeak field R x0 y0 res =
          for_loop (window_min y0 R) (window_max (ysize field) y0 R) (\<lambda>y.
            for_loop (window_min x0 R) (window_max (xsize field) x0 R)
              (\<lambda>x r. store r y x (g y x (r y x)))) res"
    unfolding StampPeak_def body ..
  also have "\<dots> = (\<lambda>y x. if window_min y0 R \<le> y \<and> y < window_max (ysize field) y0 R \<and>
         window_min x0 R \<le> x \<and> x < window_max (xsize field) x0 R then g y x (res y x) else res y x)"
    by (rule image_range_pointwise)
  finally show ?thesis by (simp add: g_def)
qed


lemma window_range:
  assumes "0 \<le> R" "R < 2 ^ 31" "n < 2 ^ 31" "c0 < n"
  shows "window_min c0 R \<le> c \<and> c < window_max n c0 R \<longleftrightarrow> c < n \<and> \<bar>int c - int c0\<bar> \<le> R"
proof -
  have "0 \<le> int c0 + 1 + R" using assms by simp
  moreover have "int c0 + 1 + R < 2 ^ 64" using assms by simp
  ultimately have m: "(int c0 + 1 + R) mod 2 ^ 64 = int c0 + 1 + R" by simp
  show ?thesis
    unfolding window_min_def window_max_def m using assms by auto
qed

lemma stamped_iff:
  assumes "0 \<le> R" "R < 2 ^ 31" "xsize field < 2 ^ 31" "ysize field < 2 ^ 31"
    "x0 < xsize field" "y0 < ysize field"
  shows "stamped field R x0 y0 x y \<longleftrightarrow> x < xsize field \<and> y < ysize field \<and> in_window R x0 y0 x y"
  unfolding stamped_def in_window_def
  using window_range[OF assms(1,2,3,5), of x] window_range[OF assms(1,2,4,6), of y]
  by blast

lemma StampPeak_cases:
  "StampPeak field R x0 y0 res y x = res y x \<or>
   (stamped field R x0 y0 x y \<and>
    StampPeak field R x0 y0 res y x = real_of_int (max \<bar>int y - int y0\<bar> \<bar>int x - int x0\<bar>))"
  by (simp add: StampPeak_apply stamped_def)

lemma StampPeak_keeps_zero:
  assumes "res y x = 0"
  shows "StampPeak field R x0 y0 res y x = 0"
proof -
  have "\<not> (0::real) > real_of_int (max \<bar>int y - int y0\<bar> \<bar>int x - int x0\<bar>)" by simp
  with assms show ?thesis by (simp add: StampPeak_apply)
qed

lemma StampPeak_centre:
  assumes "stamped field R x0 y0 x0 y0"
  shows "StampPeak field R x0 y0 res y0 x0 = 0"
  using assms by (auto simp: StampPeak_apply stamped_def)

lemma untouched_invariant:
  fixes field :: ImageF and peak_min :: real and R :: int and w :: real
  defines "body \<equiv> (\<lambda>y0 x0 (result :: nat \<Rightarrow> nat \<Rightarrow> real).
                if IsPeak field peak_min R w x0 y0
                then StampPeak field R x0 y0 result else result)"
  defines "P \<equiv> (\<lambda>r :: nat \<Rightarrow> nat \<Rightarrow> real. \<forall>y x. r y x \<noteq> - 1 \<longrightarrow>
       (\<exists>x0 y0. x0 < xsize field \<and> y0 < ysize field \<and> IsPeak field peak_min R w x0 y0 \<and>
                stamped field R x0 y0 x y))"
  shows "P (for_loop 0 (ysize field) (\<lambda>y0. for_loop 0 (xsize field) (body y0)) (\<lambda>y x. - 1))"
proof (rule for_loop_invariant[where P = P])
  show "P (\<lambda>y x. - 1)" by (simp add: P_def)
next
  fix y0 r
  assume y0: "y0 < ysize field" and r: "P r"
  show "P (for_loop 0 (xsize field) (body y0) r)"
  proof (rule for_loop_invariant[where P = P])
    show "P r" by fact
  next
    fix x0 r'
    assume x0: "x0 < xsize field" and r': "P r'"
    show "P (body y0 x0 r')"
    proof (cases "IsPeak field peak_min R w x0 y0")
      case False
      with r' show ?thesis by (simp add: body_def)
    next
      case True
      have "\<exists>xa ya. xa < xsize field \<and> ya < ysize field \<and> IsPeak field peak_min R w xa ya \<and>
                stamped field R xa ya x y"
        if "StampPeak field R x0 y0 r' y x \<noteq> - 1" for y x
      proof (cases "StampPeak field R x0 y0 r' y x = r' y x")
        case True
        with that r' show ?thesis unfolding P_def by metis
      next
        case False
        with StampPeak_cases[of field R x0 y0 r' y x]
        have "stamped field R x0 y0 x y" by blast
        with x0 y0 \<open>IsPeak field peak_min R w x0 y0\<close> show ?thesis by blast
      qed
      with True show ?thesis unfolding P_def body_def by simp
    qed
  qed
qed

lemma peaks_invariant:
  fixes field :: ImageF and peak_min :: real and R :: int and w :: real
  defines "body \<equiv> (\<lambda>y0 x0 (result :: nat \<Rightarrow> nat \<Rightarrow> real).
                if IsPeak field peak_min R w x0 y0
                then StampPeak field R x0 y0 result else result)"
  defines "P \<equiv> (\<lambda>y0 x0 (r :: nat \<Rightarrow> nat \<Rightarrow> real). \<forall>y x.
       visited (xsize field) (ysize field) y0 x0 y x \<and> IsPeak field peak_min R w x y \<longrightarrow> r y x = 0)"
  assumes self: "\<And>x0 y0. x0 < xsize field \<Longrightarrow> y0 < ysize field \<Longrightarrow> stamped field R x0 y0 x0 y0"
  shows "P (ysize field) 0 (for_loop 0 (ysize field) (\<lambda>y0. for_loop 0 (xsize field) (body y0)) r0)"
proof (rule for_loop_induct[where P = "\<lambda>y r. P y 0 r"])
  show "0 \<le> ysize field" by simp
  show "P 0 0 r0" by (simp add: P_def visited_start)
next
  fix y0 r
  assume y0: "y0 < ysize field" and r: "P y0 0 r"
  have "P y0 (xsize field) (for_loop 0 (xsize field) (body y0) r)"
  proof (rule for_loop_induct[where P = "\<lambda>x r. P y0 x r"])
    show "0 \<le> xsize field" by simp
    show "P y0 0 r" by fact
  next
    fix x0 r'
    assume x0: "x0 < xsize field" and r': "P y0 x0 r'"
    show "P y0 (Suc x0) (body y0 x0 r')"
      unfolding P_def
    proof (intro allI impI)
      fix y x
      assume h: "visited (xsize field) (ysize field) y0 (Suc x0) y x \<and> IsPeak field peak_min R w x y"
      show "body y0 x0 r' y x = 0"
      proof (cases "y = y0 \<and> x = x0")
        case True
        with h have "body y0 x0 r' y x = StampPeak field R x0 y0 r' y0 x0" by (simp add: body_def)
        also have "\<dots> = 0" by (rule StampPeak_centre) (rule self[OF x0 y0])
        finally show ?thesis .
      next
        case False
        with h have "visited (xsize field) (ysize field) y0 x0 y x" by (auto simp: visited_Suc)
        with h r' have z: "r' y x = 0" unfolding P_def by blast
        then show ?thesis by (simp add: body_def StampPeak_keeps_zero)
      qed
    qed
  qed
  then show "P (Suc y0) 0 (for_loop 0 (xsize field) (body y0) r)"
    by (simp add: P_def visited_row_end)
qed

text \<open>
  C9. For a radius \<open>0 \<le> local_radius\<close> (radius and field extents in the range
  of \<^verbatim>\<open>int\<close>), the map returned by \<^verbatim>\<open>DistToPeakMap\<close> holds \<open>0\<close> at every cell
  flagged a peak, and \<open>-1\<close> at every cell that lies in the
  \<open>(2 * local_radius + 1)\<close>-square of no peak.
\<close>

theorem DistToPeakMap_peaks_and_background:
  assumes "0 \<le> local_radius" "local_radius < 2 ^ 31"
    "xsize field < 2 ^ 31" "ysize field < 2 ^ 31"
    "x < xsize field" "y < ysize field"
  shows "(IsPeak field peak_min local_radius peak_weight x y \<longrightarrow>
            Row (DistToPeakMap field peak_min local_radius peak_weight) y x = 0) \<and>
         ((\<forall>x0<xsize field. \<forall>y0<ysize field.
             IsPeak field peak_min local_radius peak_weight x0 y0 \<longrightarrow>
             \<not> in_window local_radius x0 y0 x y) \<longrightarrow>
            Row (DistToPeakMap field peak_min local_radius peak_weight) y x = - 1)"
proof (intro conjI impI)
  assume pk: "IsPeak field peak_min local_radius peak_weight x y"
  have self: "stamped field local_radius x0 y0 x0 y0"
    if "x0 < xsize field" "y0 < ysize field" for x0 y0
    using stamped_iff[OF assms(1,2,3,4) that, of x0 y0] that by (simp add: in_window_def assms(1))
  from peaks_invariant[of field local_radius peak_min peak_weight "\<lambda>y x. - 1", OF self]
  have "\<forall>y x. visited (xsize field) (ysize field) (ysize field) 0 y x \<and>
               IsPeak field peak_min local_radius peak_weight x y \<longrightarrow>
               Row (DistToPeakMap field peak_min local_radius peak_weight) y x = 0"
    by (simp add: DistToPeakMap_def)
  with pk assms(5,6) show "Row (DistToPeakMap field peak_min local_radius peak_weight) y x = 0"
    by (simp add: visited_all)
next
  assume nw: "\<forall>x0<xsize field. \<forall>y0<ysize field.
             IsPeak field peak_min local_radius peak_weight x0 y0 \<longrightarrow>
             \<not> in_window local_radius x0 y0 x y"
  show "Row (DistToPeakMap field peak_min local_radius peak_weight) y x = - 1"
  proof (rule ccontr)
    assume ne: "Row (DistToPeakMap field peak_min local_radius peak_weight) y x \<noteq> - 1"
    from untouched_invariant[of field peak_min local_radius peak_weight]
    have "\<forall>y x. Row (DistToPeakMap field peak_min local_radius peak_weight) y x \<noteq> - 1 \<longrightarrow>
            (\<exists>x0 y0. x0 < xsize field \<and> y0 < ysize field \<and>
                     IsPeak field peak_min local_radius peak_weight x0 y0 \<and>
                     stamped field local_radius x0 y0 x y)"
      by (simp add: DistToPeakMap_def)
    with ne obtain x0 y0 where p: "x0 < xsize field" "y0 < ysize field"
      "IsPeak field peak_min local_radius peak_weight x0 y0" "stamped field local_radius x0 y0 x y"
      by blast
    from stamped_iff[OF assms(1,2,3,4) p(1,2), of x y] p(4)
    have "in_window local_radius x0 y0 x y" by simp
    with nw p show False by blast
  qed
qed


theorem DistToPeakMap_peaks_and_background_witness:
  "Row (DistToPeakMap \<lparr>xsize = 5, ysize = 5, Row = (\<lambda>y x. if y = 2 \<and> x = 2 then 5 else 0)\<rparr> 1 1 0) 2 2 = 0 \<and>
   Row (DistToPeakMap \<lparr>xsize = 5, ysize = 5, Row = (\<lambda>y x. if y = 2 \<and> x = 2 then 5 else 0)\<rparr> 1 1 0) 0 0 = - 1"
proof -
  let ?f = "\<lparr>xsize = 5, ysize = 5, Row = (\<lambda>(y::nat) (x::nat). if y = 2 \<and> x = 2 then 5 else (0::real))\<rparr>"
  have pk: "IsPeak ?f 1 1 0 x0 y0 \<longleftrightarrow> y0 = 2 \<and> x0 = 2" for x0 y0
    by (simp add: IsPeak_def)
  have a: "Row (DistToPeakMap ?f 1 1 0) 2 2 = 0"
    using DistToPeakMap_peaks_and_background[of 1 ?f 2 2 1 0] by (simp add: pk)
  have b: "Row (DistToPeakMap ?f 1 1 0) 0 0 = - 1"
    using DistToPeakMap_peaks_and_background[of 1 ?f 0 0 1 0] by (simp add: pk in_window_def)
  from a b show ?thesis by simp
qed

text \<open>
  The radius must not be negative: with \<open>local_radius = -1\<close> the window of a
  cell is empty, so a peak flags itself and is never stamped.
\<close>

lemma DistToPeakMap_negative_radius:
  "IsPeak \<lparr>xsize = 1, ysize = 1, Row = (\<lambda>y x. 5)\<rparr> 1 (- 1) 0 0 0 \<and>
   Row (DistToPeakMap \<lparr>xsize = 1, ysize = 1, Row = (\<lambda>y x. 5)\<rparr> 1 (- 1) 0) 0 0 = - 1"
  by (simp add: IsPeak_def DistToPeakMap_def for_loop_unroll StampPeak_apply window_min_def window_max_def)


section \<open>The local difference map\<close>

lemma MeanOfLast_code:
  "(if n \<ge> 3 then (f (n - 1) + f (n - 3) + f (n - 2)) * (1.0 / 3)
    else if n \<ge> 2 then (f (n - 1) + f (n - 2)) * 0.5
    else f (n - 1)) = MeanOfLast f n"
  by (simp add: MeanOfLast_def)

lemma MeanOfLast_cong:
  assumes "\<And>k. k < n \<Longrightarrow> f k = g k" "0 < n"
  shows "MeanOfLast f n = MeanOfLast g n"
  using assms by (simp add: MeanOfLast_def)

lemma DiffRow_apply:
  assumes "0 < xs"
  shows "DiffRow P xs ys cutoff pxs y r0 x =
           (if x \<le> max 1 (xs - 1) then RowPassCell P xs ys cutoff y x
            else if x < pxs then MeanOfLast (RowPassCell P xs ys cutoff y) xs
            else r0 x)"
proof -
  define L where "L = max 1 (xs - 1)"
  define r3 where "r3 = (for_loop 1 (xs - 1)
                       (\<lambda>x row_out. row_out(x := PixelInterior P ys cutoff y x))
                       (r0(0 := PixelFirst P xs ys cutoff y)))(L := PixelLast P ys cutoff y L)"
  have r3: "r3 k = (if k \<le> L then RowPassCell P xs ys cutoff y k else r0 k)" for k
    unfolding r3_def fill_loop by (auto simp: RowPassCell_def L_def)
  have idx: "k < xs \<Longrightarrow> k \<le> L" for k by (simp add: L_def)
  have lastval: "(if xs \<ge> 3 then (r3 (xs - 1) + r3 (xs - 3) + r3 (xs - 2)) * (1.0 / 3)
             else if xs \<ge> 2 then (r3 (xs - 1) + r3 (xs - 2)) * 0.5
             else r3 (xs - 1)) = MeanOfLast (RowPassCell P xs ys cutoff y) xs"
    unfolding MeanOfLast_code
    by (rule MeanOfLast_cong) (use assms idx in \<open>simp_all add: r3\<close>)
  have "DiffRow P xs ys cutoff pxs y r0 =
          for_loop (L + 1) pxs (\<lambda>x row_out. row_out(x := MeanOfLast (RowPassCell P xs ys cutoff y) xs)) r3"
    unfolding DiffRow_def Let_def L_def[symmetric] r3_def[symmetric] lastval ..
  then show ?thesis
    unfolding fill_loop by (auto simp: r3 L_def)
qed

lemma LastRow_apply:
  "LastRow P xs ys cutoff d y x =
     (if y = ys - 1 \<and> x + 1 < xs then LastRowPixel P cutoff y x
      else if y = ys - 1 \<and> x = xs - 1 \<and> 0 < x then LastRowPixel P cutoff y (x - 1)
      else d y x)"
proof -
  have loop: "for_loop 0 (xs - 1) (\<lambda>x d. store d (ys - 1) x (LastRowPixel P cutoff (ys - 1) x)) d =
          (\<lambda>y' x'. if y' = ys - 1 \<and> 0 \<le> x' \<and> x' < xs - 1 then LastRowPixel P cutoff (ys - 1) x' else d y' x')"
    by (rule row_range_pointwise[where g = "\<lambda>x v. LastRowPixel P cutoff (ys - 1) x"])
  show ?thesis
    unfolding LastRow_def Let_def loop by (auto simp: store_apply)
qed

lemma ExtendRows_apply:
  "ExtendRows ys pxs pys d y x =
     (if ys \<le> y \<and> y < pys \<and> x < pxs then MeanOfLast (\<lambda>k. d k x) ys else d y x)"
proof -
  have col: "for_loop ys pys (\<lambda>y d'. store d' y x v) d' =
               (\<lambda>y' x'. if x' = x \<and> ys \<le> y' \<and> y' < pys then v else d' y' x')"
    for x v and d' :: "nat \<Rightarrow> nat \<Rightarrow> real"
  proof (cases "ys \<le> pys")
    case False
    then show ?thesis by (intro ext) auto
  next
    case True
    then show ?thesis
    proof (rule for_loop_induct[where P = "\<lambda>h r. r = (\<lambda>y' x'. if x' = x \<and> ys \<le> y' \<and> y' < h then v else d' y' x')"])
      show "d' = (\<lambda>y' x'. if x' = x \<and> ys \<le> y' \<and> y' < ys then v else d' y' x')" by (intro ext) auto
    next
      fix i r
      assume "ys \<le> i" "i < pys"
        and "r = (\<lambda>y' x'. if x' = x \<and> ys \<le> y' \<and> y' < i then v else d' y' x')"
      then show "store r i x v = (\<lambda>y' x'. if x' = x \<and> ys \<le> y' \<and> y' < Suc i then v else d' y' x')"
        by (intro ext) (auto simp: store_apply less_Suc_eq)
    qed
  qed
  have mean: "(if ys \<ge> 3 then (f (ys - 1) + f (ys - 2) + f (ys - 3)) * (1.0 / 3)
              else if ys \<ge> 2 then (f (ys - 1) + f (ys - 2)) * 0.5
              else f (ys - 1)) = MeanOfLast f ys" for f :: "nat \<Rightarrow> real"
    by (simp add: MeanOfLast_def)
  have "ExtendRows ys pxs pys d =
          (\<lambda>y x. if ys \<le> y \<and> y < pys \<and> x < pxs then MeanOfLast (\<lambda>k. d k x) ys else d y x)"
    unfolding ExtendRows_def Let_def
  proof (rule for_loop_induct[where P = "\<lambda>w r. r = (\<lambda>y x. if ys \<le> y \<and> y < pys \<and> x < w then MeanOfLast (\<lambda>k. d k x) ys else d y x)"])
    show "0 \<le> pxs" by simp
    show "d = (\<lambda>y x. if ys \<le> y \<and> y < pys \<and> x < 0 then MeanOfLast (\<lambda>k. d k x) ys else d y x)" by simp
  next
    fix i r
    assume "i < pxs"
      and r: "r = (\<lambda>y x. if ys \<le> y \<and> y < pys \<and> x < i then MeanOfLast (\<lambda>k. d k x) ys else d y x)"
    have m: "MeanOfLast (\<lambda>k. r k i) ys = MeanOfLast (\<lambda>k. d k i) ys"
      by (simp add: r)
    show "for_loop ys pys (\<lambda>y d'. store d' y i
             (if 3 \<le> ys then (r (ys - 1) i + r (ys - 2) i + r (ys - 3) i) * (1.0 / 3)
              else if 2 \<le> ys then (r (ys - 1) i + r (ys - 2) i) * 0.5 else r (ys - 1) i)) r =
          (\<lambda>y x. if ys \<le> y \<and> y < pys \<and> x < Suc i then MeanOfLast (\<lambda>k. d k x) ys else d y x)"
      unfolding mean[of "\<lambda>k. r k i"] col m
      by (intro ext) (auto simp: r less_Suc_eq)
  qed
  then show ?thesis by simp
qed


lemma DiffPrecompute_Some:
  assumes "0 < frame_xsize fd" "0 < frame_ysize fd" "GammaDefined xyb fd"
  shows "DiffPrecompute xyb fd cutoff =
           Some \<lparr>xsize = RoundUpToBlockDim (frame_xsize fd),
                 ysize = RoundUpToBlockDim (frame_ysize fd),
                 Row = (let d2 = LastRow (PlaneRow xyb 1) (frame_xsize fd) (frame_ysize fd) cutoff
                                   (RowPassImage (PlaneRow xyb 1) (frame_xsize fd) (frame_ysize fd) cutoff
                                      (RoundUpToBlockDim (frame_xsize fd)))
                        in if frame_ysize fd \<noteq> RoundUpToBlockDim (frame_ysize fd)
                           then ExtendRows (frame_ysize fd) (RoundUpToBlockDim (frame_xsize fd))
                                  (RoundUpToBlockDim (frame_ysize fd)) d2
                           else d2)\<rparr>"
proof -
  let ?P = "PlaneRow xyb 1" and ?xs = "frame_xsize fd" and ?ys = "frame_ysize fd"
  let ?pxs = "RoundUpToBlockDim ?xs"
  have "for_loop 0 ?ys (\<lambda>y d. d(y := DiffRow ?P ?xs ?ys cutoff ?pxs y (d y))) (\<lambda>y x. 0)
          = (\<lambda>y. if y < ?ys then DiffRow ?P ?xs ?ys cutoff ?pxs y (\<lambda>x. 0) else (\<lambda>x. 0))"
    by (rule rows_pass[where F = "DiffRow ?P ?xs ?ys cutoff ?pxs" and ?d0.0 = "\<lambda>y x. 0"])
  also have "\<dots> = RowPassImage ?P ?xs ?ys cutoff ?pxs"
    by (intro ext) (simp add: RowPassImage_def DiffRow_apply[OF assms(1)])
  finally show ?thesis
    using assms by (simp add: DiffPrecompute_def Let_def)
qed








text \<open>
  Where the padding is the mean of final values: to the right of every row but
  the last (from column \<open>max 2 xsize\<close> on), and below the frame in every
  column.
\<close>

lemma LastRow_other_rows:
  assumes "y \<noteq> ys - 1"
  shows "LastRow P xs ys cutoff d y x = d y x"
  using assms by (simp add: LastRow_apply)

lemma DiffPrecompute_padding:
  assumes "0 < frame_xsize fd" "0 < frame_ysize fd" "GammaDefined xyb fd"
  shows "\<exists>img. DiffPrecompute xyb fd cutoff = Some img \<and>
           (\<forall>y x. y + 1 < frame_ysize fd \<and> max 2 (frame_xsize fd) \<le> x \<and> x < xsize img \<longrightarrow>
                  Row img y x = MeanOfLast (Row img y) (frame_xsize fd)) \<and>
           (\<forall>y x. frame_ysize fd \<le> y \<and> y < ysize img \<and> x < xsize img \<longrightarrow>
                  Row img y x = MeanOfLast (\<lambda>k. Row img k x) (frame_ysize fd))"
proof -
  let ?P = "PlaneRow xyb 1" and ?xs = "frame_xsize fd" and ?ys = "frame_ysize fd"
  let ?pxs = "RoundUpToBlockDim ?xs" and ?pys = "RoundUpToBlockDim ?ys"
  let ?d1 = "RowPassImage ?P ?xs ?ys cutoff ?pxs"
  let ?d2 = "LastRow ?P ?xs ?ys cutoff ?d1"
  define d3 where "d3 = (if ?ys \<noteq> ?pys then ExtendRows ?ys ?pxs ?pys ?d2 else ?d2)"
  have eq: "DiffPrecompute xyb fd cutoff = Some \<lparr>xsize = ?pxs, ysize = ?pys, Row = d3\<rparr>"
    unfolding DiffPrecompute_Some[OF assms] d3_def Let_def ..
  have low: "d3 y x = ?d2 y x" if "y < ?ys" for y x
    using that by (simp add: d3_def ExtendRows_apply)
  have upper: "d3 y x = ?d1 y x" if "y + 1 < ?ys" for y x
  proof -
    from that have "y \<noteq> ?ys - 1" "y < ?ys" by simp_all
    then show ?thesis by (simp add: low LastRow_other_rows)
  qed
  have right: "d3 y x = MeanOfLast (d3 y) ?xs"
    if "y + 1 < ?ys" "max 2 ?xs \<le> x" "x < ?pxs" for y x
  proof -
    from that have y: "y < ?ys" by simp
    from that(2) have x: "\<not> x \<le> max 1 (?xs - 1)" by auto
    have "d3 y x = MeanOfLast (RowPassCell ?P ?xs ?ys cutoff y) ?xs"
      using y x that(3) by (simp add: upper[OF that(1)] RowPassImage_def)
    also have "\<dots> = MeanOfLast (d3 y) ?xs"
    proof (rule MeanOfLast_cong)
      fix k assume "k < ?xs"
      then have "k \<le> max 1 (?xs - 1)" by simp
      with y show "RowPassCell ?P ?xs ?ys cutoff y k = d3 y k"
        by (simp add: upper[OF that(1)] RowPassImage_def)
    qed (rule assms(1))
    finally show ?thesis .
  qed
  have bottom: "d3 y x = MeanOfLast (\<lambda>k. d3 k x) ?ys"
    if "?ys \<le> y" "y < ?pys" "x < ?pxs" for y x
  proof -
    from that have ne: "?ys \<noteq> ?pys" by auto
    with that have "d3 y x = MeanOfLast (\<lambda>k. ?d2 k x) ?ys"
      by (simp add: d3_def ExtendRows_apply)
    also have "\<dots> = MeanOfLast (\<lambda>k. d3 k x) ?ys"
      by (rule MeanOfLast_cong) (simp_all add: low assms(2))
    finally show ?thesis .
  qed
  from right bottom show ?thesis unfolding eq by simp
qed

lemma gamma_ratio_at_one:
  "kDiffCutoff \<le> 2 * mul0 * RatioOfDerivativesOfCubicRootToSimpleGamma False (1 + match_gamma_offset)"
  by (simp add: RatioOfDerivativesOfCubicRootToSimpleGamma_def RatioNum_def RatioDen_def
      kSGmul_def kSGmul2_def kLog2_def kSGRetMul_def kSGVOffset_def mul0_def match_gamma_offset_def
      kDiffCutoff_def Let_def)

lemma gamma_ratio_at_one_pos:
  "0 \<le> RatioOfDerivativesOfCubicRootToSimpleGamma False (1 + match_gamma_offset)"
  by (simp add: RatioOfDerivativesOfCubicRootToSimpleGamma_def RatioNum_def RatioDen_def
      kSGmul_def kSGmul2_def kLog2_def kSGRetMul_def kSGVOffset_def match_gamma_offset_def Let_def)

lemma stale_cells:
  fixes P :: "nat \<Rightarrow> nat \<Rightarrow> real"
  assumes P: "P = (\<lambda>y x. if y = 1 then 1 else 0)"
  shows "RowPassCell P 3 2 kDiffCutoff 1 0 = kDiffCutoff"
    and "RowPassCell P 3 2 kDiffCutoff 1 1 = kDiffCutoff"
    and "RowPassCell P 3 2 kDiffCutoff 1 2 = kDiffCutoff"
proof -
  let ?r = "RatioOfDerivativesOfCubicRootToSimpleGamma False (1 + match_gamma_offset)"
  have a: "GammaMin kDiffCutoff (mul0 * 2) 1 = kDiffCutoff"
    using gamma_ratio_at_one by (simp add: GammaMin_def min_def mult.commute)
  have "kDiffCutoff \<le> 2 * mul0 * ?r" by (rule gamma_ratio_at_one)
  also have "\<dots> \<le> 7 * mul0 * ?r"
    using gamma_ratio_at_one_pos by (simp add: mul0_def mult_right_mono)
  finally have b: "GammaMin kDiffCutoff (7 * mul0) 1 = kDiffCutoff"
    by (simp add: GammaMin_def min_def)
  show "RowPassCell P 3 2 kDiffCutoff 1 0 = kDiffCutoff"
    using a by (simp add: RowPassCell_def PixelFirst_def NeighbourDiff_def RowY1_def RowY2_def P)
  show "RowPassCell P 3 2 kDiffCutoff 1 1 = kDiffCutoff"
    using a by (simp add: RowPassCell_def PixelInterior_def NeighbourDiff_def RowY1_def RowY2_def P)
  show "RowPassCell P 3 2 kDiffCutoff 1 2 = kDiffCutoff"
    using b by (simp add: RowPassCell_def PixelLast_def RowY2_def P)
qed

text \<open>
  C4. Each padding cell is claimed to equal the mean of the last three (two,
  one) valid cells of its row or column, with the valid cells at their final
  values, in the last row too. The row pass pads the last row before the
  \<^verbatim>\<open>// Last row.\<close> block rewrites its valid cells. On a frame of 3 by 2 pixels
  whose Y plane is \<open>0\<close> in row \<open>0\<close> and \<open>1\<close> in row \<open>1\<close>, at the cutoff of the
  encoder, the last row ends as \<open>0, 0, 0\<close> while its padding cells hold
  \<open>kDiffCutoff\<close>, not the mean \<open>0\<close>.
\<close>

theorem DiffPrecompute_last_row_padding:
  "map_option (\<lambda>img. (Row img 1 0, Row img 1 1, Row img 1 2, Row img 1 3, MeanOfLast (Row img 1) 3))
     (DiffPrecompute \<lparr>xsize3 = 8, ysize3 = 8, PlaneRow = (\<lambda>c y x. if y = 1 then 1 else 0)\<rparr>
        \<lparr>frame_xsize = 3, frame_ysize = 2\<rparr> kDiffCutoff)
   = Some (0, 0, 0, kDiffCutoff, 0)"
proof -
  let ?X = "\<lparr>xsize3 = 8, ysize3 = 8, PlaneRow = (\<lambda>(c::nat) (y::nat) (x::nat). if y = 1 then 1 else (0::real))\<rparr>"
  let ?F = "\<lparr>frame_xsize = 3, frame_ysize = 2\<rparr>"
  define P :: "nat \<Rightarrow> nat \<Rightarrow> real" where "P = (\<lambda>y x. if y = 1 then 1 else 0)"
  define d3 where "d3 = ExtendRows 2 8 8 (LastRow P 3 2 kDiffCutoff (RowPassImage P 3 2 kDiffCutoff 8))"
  have g: "GammaDefined ?X ?F" by (simp add: GammaDefined_def match_gamma_offset_def)
  have r8: "RoundUpToBlockDim 3 = 8" "RoundUpToBlockDim 2 = 8" by (simp_all add: RoundUpToBlockDim_def)
  have eq: "DiffPrecompute ?X ?F kDiffCutoff = Some \<lparr>xsize = 8, ysize = 8, Row = d3\<rparr>"
    using DiffPrecompute_Some[of ?F ?X kDiffCutoff, OF _ _ g]
    by (simp add: r8 Let_def d3_def P_def)
  have c: "0 < kDiffCutoff" by (simp add: kDiffCutoff_def)
  have z: "LastRowPixel P kDiffCutoff 1 x = 0" for x
    using c by (simp add: LastRowPixel_def GammaMin_def P_def)
  have m: "MeanOfLast (RowPassCell P 3 2 kDiffCutoff 1) 3 = kDiffCutoff"
    unfolding MeanOfLast_def using stale_cells[OF P_def] by simp
  have v0: "d3 1 0 = 0" using z[of 0] by (simp add: d3_def ExtendRows_apply LastRow_apply)
  have v1: "d3 1 1 = 0" using z[of 1] by (simp add: d3_def ExtendRows_apply LastRow_apply)
  have v2: "d3 1 2 = 0" using z[of 1] by (simp add: d3_def ExtendRows_apply LastRow_apply)
  have v3: "d3 1 3 = kDiffCutoff"
    using m by (simp add: d3_def ExtendRows_apply LastRow_apply RowPassImage_def)
  have mean: "MeanOfLast (d3 1) 3 = 0"
    unfolding MeanOfLast_def using v0 v1 v2 by simp
  show ?thesis
    unfolding eq using v0 v1 v2 v3 mean by simp
qed

section \<open>The DC quantizer\<close>

text \<open>
  C8. For every target \<open>t > 0\<close>, \<open>InitialQuantDC t\<close> is
  \<open>min (kDcQuant / min t (kDcMul * (t / kDcMul) ^ kDcQuantPow)) 50\<close>, it is at most
  \<open>50\<close>, and it does not increase when the target grows.
\<close>

theorem InitialQuantDC_bounded_antimono:
  fixes t :: real
  assumes "0 < t"
  shows "InitialQuantDC t = min (1.18 / min t (2.9 * (t / 2.9) powr 0.55)) 50 \<and>
         InitialQuantDC t \<le> 50 \<and>
         (\<forall>t'. t \<le> t' \<longrightarrow> InitialQuantDC t' \<le> InitialQuantDC t)"
proof (intro conjI allI impI)
  show "InitialQuantDC t = min (1.18 / min t (2.9 * (t / 2.9) powr 0.55)) 50"
    by (simp add: InitialQuantDC_def Let_def kDcQuant_def kDcQuantPow_def)
  show "InitialQuantDC t \<le> 50"
    unfolding InitialQuantDC_def Let_def by (rule min.cobounded2)
next
  fix t' :: real
  assume le: "t \<le> t'"
  define g where "g = (\<lambda>u::real. min u (2.9 * ((1.0 / 2.9) * u) powr kDcQuantPow))"
  have pos: "0 < g u" if "0 < u" for u
    unfolding g_def using that by simp
  have "((1.0 / 2.9) * t) powr kDcQuantPow \<le> ((1.0 / 2.9) * t') powr kDcQuantPow"
    using assms le by (intro powr_mono2) (simp_all add: kDcQuantPow_def)
  then have "2.9 * ((1.0 / 2.9) * t) powr kDcQuantPow \<le> 2.9 * ((1.0 / 2.9) * t') powr kDcQuantPow"
    by (intro mult_left_mono) simp_all
  with le have mono: "g t \<le> g t'"
    unfolding g_def by (intro min.mono)
  have "kDcQuant / g t' \<le> kDcQuant / g t"
    using mono pos[of t] pos[of t'] assms le
    by (intro divide_left_mono) (simp_all add: kDcQuant_def)
  then have "min (kDcQuant / g t') 50 \<le> min (kDcQuant / g t) 50"
    by (rule min.mono) simp
  then show "InitialQuantDC t' \<le> InitialQuantDC t"
    by (simp only: InitialQuantDC_def Let_def g_def)
qed

theorem InitialQuantDC_bounded_antimono_witness:
  "(0::real) < 1 \<and> (1::real) \<le> 16 \<and> InitialQuantDC 1 \<le> 50 \<and> InitialQuantDC 16 \<le> InitialQuantDC 1"
proof -
  have h: "(0::real) < 1" by simp
  from InitialQuantDC_bounded_antimono [OF h]
  have a: "InitialQuantDC 1 \<le> 50"
    and b: "\<forall>t'. 1 \<le> t' \<longrightarrow> InitialQuantDC t' \<le> InitialQuantDC 1"
    by blast+
  from b have "InitialQuantDC 16 \<le> InitialQuantDC 1" by simp
  with a show ?thesis by simp
qed

section \<open>The search step\<close>

lemma lit999: "lit (999 / 1000) = Fin (16760439 / 2 ^ 24)"
  unfolding lit_def
  by (rule pack_eval, subst rnd_eval[of "- 1"]) (simp_all add: rne_def huge32_def)


lemma AdjustQuantVal_adjusts:
  assumes "\<not> fge q (fmul (lit 0.999) quant_max)"
  shows "AdjustQuantVal q d factor quant_max =
    (True, fdiv (Fin 1) (std_max (fdiv (Fin 1) quant_max)
                           (fsub (fdiv (Fin 1) q) (fdiv factor (fadd d (Fin 1))))))"
  using assms by (simp add: AdjustQuantVal_def Let_def)

lemma nonneg_form:
  assumes "fle (Fin 0) a"
  obtains "a = PInf" | "a = NegZero" | r where "a = Fin r" "0 \<le> r"
  using assms huge32_pos by (cases a) (auto simp: fle_def)

lemma below_threshold:
  assumes M: "0 < M" "rnd M = M" "M < huge32"
    and q: "flt (Fin 0) q" "\<not> fge q (fmul (lit 0.999) (Fin M))"
  obtains r where "q = Fin r" "0 < r" "r < M"
proof -
  let ?t = "fmul (lit 0.999) (Fin M)"
  have t: "?t = pack False (16760439 / 2 ^ 24 * M)"
    using M(1) by (simp add: lit999 fmul_def)
  have "16760439 / 2 ^ 24 * M \<le> M" using M(1) by simp
  then have "rnd (16760439 / 2 ^ 24 * M) \<le> rnd M" by (rule rnd_mono)
  then have rt: "rank ?t \<le> M" using M huge32_pos unfolding t rank_pack by simp
  from q(2) q(1) t have lt: "rank q < rank ?t" by (simp add: fge_def fle_def flt_def)
  from q(1) have "q \<noteq> NaN" "0 < rank q" by (simp_all add: flt_def)
  with lt rt M(3) show ?thesis using that by (cases q) auto
qed

lemma AdjustQuantVal_positive:
  assumes M: "0 < M" "rnd M = M" "M < huge32"
    and q: "flt (Fin 0) q" "\<not> fge q (fmul (lit 0.999) (Fin M))"
    and d: "fle (Fin 0) d" and f: "fle (Fin 0) factor"
    and fin: "finite32 (fdiv (Fin 1) q)"
  shows "flt (Fin 0) (snd (AdjustQuantVal q d factor (Fin M)))"
proof -
  from M q obtain r where r: "q = Fin r" "0 < r" "r < M" by (rule below_threshold)
  then have rh: "r < huge32" using M(3) by linarith
  define i where "i = rnd (1 / r)"
  have ipos: "0 < i"
    using rnd_tiny[OF recip_huge[OF r(2) rh]] pow2_pos[of "- 128"] unfolding i_def by linarith
  have iq: "fdiv (Fin 1) q = pack False (1 / r)" using r by (simp add: fdiv_def)
  have ih: "i < huge32" and inv: "fdiv (Fin 1) q = Fin i"
    using fin ipos unfolding iq i_def by (rule_tac [!] pack_cases[of "1 / r" False]) simp_all
  have "1 / M \<le> 1 / r" using r by (simp add: frac_le)
  then have mi: "rnd (1 / M) \<le> i" unfolding i_def by (rule rnd_mono)
  define m where "m = rnd (1 / M)"
  have mpos: "0 < m"
    using rnd_tiny[OF recip_huge[OF M(1,3)]] pow2_pos[of "- 128"] unfolding m_def by linarith
  have mq: "fdiv (Fin 1) (Fin M) = Fin m"
  proof -
    have "pack False (1 / M) = Fin m"
      by (rule pack_eval) (use mpos mi ih in \<open>simp_all add: m_def\<close>)
    then show ?thesis using M(1) by (simp add: fdiv_def)
  qed
  define e where "e = fadd d (Fin 1)"
  have e: "e = PInf \<or> (\<exists>x. e = Fin x \<and> 1 \<le> x)"
  proof -
    have one: "rnd 1 = 1" using rnd_fix[of "2 ^ 23" 0] by simp
    have p: "e = PInf \<or> (\<exists>x. e = Fin x \<and> 1 \<le> x)" if "e = pack s y" "1 \<le> y" for s y
    proof -
      from rnd_mono[OF that(2)] one have "1 \<le> rnd y" by simp
      then show ?thesis unfolding that(1)
        using huge32_pos by (rule_tac pack_cases[of y s]) simp_all
    qed
    from d show ?thesis
    proof (rule nonneg_form)
      assume "d = PInf" then show ?thesis by (simp add: e_def fadd_def)
    next
      assume "d = NegZero"
      then have "e = pack False (0 + 1)" by (simp add: e_def fadd_def)
      then show ?thesis by (rule p) simp
    next
      fix x assume "d = Fin x" "0 \<le> x"
      then have "e = pack False (x + 1)" by (simp add: e_def fadd_def)
      then show ?thesis by (rule p) (use \<open>0 \<le> x\<close> in simp)
    qed
  qed
  define t where "t = fdiv factor e"
  have t: "t = NaN \<or> t = PInf \<or> t = NegZero \<or> (\<exists>x. t = Fin x \<and> 0 \<le> x)"
  proof -
    have p: "t = NaN \<or> t = PInf \<or> t = NegZero \<or> (\<exists>x. t = Fin x \<and> 0 \<le> x)"
      if "t = pack s y" "0 \<le> y" for s y
    proof -
      from rnd_nonneg[OF that(2)] show ?thesis
        unfolding that(1) using huge32_pos by (rule_tac pack_cases[of y s]) (simp_all add: zero32_def)
    qed
    from e show ?thesis
    proof
      assume e: "e = PInf"
      from f show ?thesis
        by (rule nonneg_form) (simp_all add: t_def e fdiv_def zero32_def)
    next
      assume "\<exists>x. e = Fin x \<and> 1 \<le> x"
      then obtain x where x: "e = Fin x" "1 \<le> x" by blast
      from f show ?thesis
      proof (rule nonneg_form)
        assume "factor = PInf" then show ?thesis using x by (simp add: t_def fdiv_def inf32_def)
      next
        assume "factor = NegZero"
        then have "t = pack True (0 / x)" using x by (simp add: t_def fdiv_def)
        then show ?thesis by (rule p) simp
      next
        fix y assume y: "factor = Fin y" "0 \<le> y"
        then have "t = pack False (y / x)" using x by (simp add: t_def fdiv_def)
        then show ?thesis by (rule p) (use x y in simp)
      qed
    qed
  qed
  define adj where "adj = fsub (Fin i) t"
  have adj: "adj \<noteq> PInf"
  proof -
    have p: "adj \<noteq> PInf" if "adj = pack s y" "y \<le> i" for s y
    proof -
      have "rnd y \<le> rnd i" using that(2) by (rule rnd_mono)
      then have "rnd y < huge32" using ih by (simp add: i_def)
      then show ?thesis unfolding that(1) by (rule_tac pack_cases[of y s]) (simp_all add: zero32_def)
    qed
    from t consider "t = NaN" | "t = PInf" | "t = NegZero" | x where "t = Fin x" "0 \<le> x" by blast
    then show ?thesis
    proof cases
      case 1 then show ?thesis by (simp add: adj_def fsub_def fadd_def)
    next
      case 2 then show ?thesis by (simp add: adj_def fsub_def fadd_def)
    next
      case 3
      then have "adj = pack False (i + 0)" using ipos by (simp add: adj_def fsub_def fadd_def)
      then show ?thesis by (rule p) simp
    next
      case 4
      show ?thesis
      proof (cases "x = 0")
        case True
        with 4 have "adj = pack False (i + 0)" using ipos by (simp add: adj_def fsub_def fadd_def)
        then show ?thesis by (rule p) simp
      next
        case False
        with 4 have "adj = pack False (i + (- x))" using ipos by (simp add: adj_def fsub_def fadd_def)
        then show ?thesis by (rule p) (use 4(2) in simp)
      qed
    qed
  qed
  have af: "is_f32 adj" by (simp add: adj_def)
  define D where "D = std_max (Fin m) adj"
  have D: "\<exists>s. D = Fin s \<and> 0 < s \<and> s < huge32"
  proof (cases "flt (Fin m) adj")
    case True
    then have "adj \<noteq> NaN" "m < rank adj" by (simp_all add: flt_def)
    with adj af mpos huge32_pos have "\<exists>s. adj = Fin s \<and> 0 < s \<and> s < huge32" by (cases adj) auto
    with True show ?thesis by (simp add: D_def std_max_def)
  next
    case False
    then have "D = Fin m" by (simp add: D_def std_max_def)
    with mpos mi ih show ?thesis by (simp add: m_def)
  qed
  then obtain s where s: "D = Fin s" "0 < s" "s < huge32" by blast
  have "snd (AdjustQuantVal q d factor (Fin M)) = fdiv (Fin 1) D"
    unfolding AdjustQuantVal_adjusts[OF q(2)] D_def adj_def t_def e_def mq inv by simp
  also have "\<dots> = pack False (1 / s)" using s by (simp add: fdiv_def)
  finally have "snd (AdjustQuantVal q d factor (Fin M)) = pack False (1 / s)" .
  moreover have "0 < rank (pack False (1 / s))"
    by (rule rank_pack_pos) (rule recip_huge[OF s(2,3)])
  ultimately show ?thesis by (simp add: flt_def)
qed


lemma recip_0a: "fdiv (Fin 1) (Fin 5) = Fin (13421773 / 67108864)"
  by (rule fdiv_eval, subst rnd_eval[of "- 3"]) (simp_all add: rne_def huge32_def)

lemma recip_0b: "fdiv (Fin 1) (Fin (13421773 / 67108864)) = Fin 5"
  by (rule fdiv_eval, subst rnd_eval[of 2]) (simp_all add: rne_def huge32_def)

lemma recip_1a: "fdiv (Fin 1) (Fin (11 / 2)) = Fin (3050403 / 16777216)"
  by (rule fdiv_eval, subst rnd_eval[of "- 3"]) (simp_all add: rne_def huge32_def)

lemma recip_1b: "fdiv (Fin 1) (Fin (3050403 / 16777216)) = Fin (11 / 2)"
  by (rule fdiv_eval, subst rnd_eval[of 2]) (simp_all add: rne_def huge32_def)

lemma recip_2a: "fdiv (Fin 1) (Fin 6) = Fin (11184811 / 67108864)"
  by (rule fdiv_eval, subst rnd_eval[of "- 3"]) (simp_all add: rne_def huge32_def)

lemma recip_2b: "fdiv (Fin 1) (Fin (11184811 / 67108864)) = Fin 6"
  by (rule fdiv_eval, subst rnd_eval[of 2]) (simp_all add: rne_def huge32_def)

lemma recip_3a: "fdiv (Fin 1) (Fin (13 / 2)) = Fin (10324441 / 67108864)"
  by (rule fdiv_eval, subst rnd_eval[of "- 3"]) (simp_all add: rne_def huge32_def)

lemma recip_3b: "fdiv (Fin 1) (Fin (10324441 / 67108864)) = Fin (13631487 / 2097152)"
  by (rule fdiv_eval, subst rnd_eval[of 2]) (simp_all add: rne_def huge32_def)

lemma recip_4a: "fdiv (Fin 1) (Fin 7) = Fin (9586981 / 67108864)"
  by (rule fdiv_eval, subst rnd_eval[of "- 3"]) (simp_all add: rne_def huge32_def)

lemma recip_4b: "fdiv (Fin 1) (Fin (9586981 / 67108864)) = Fin (14680063 / 2097152)"
  by (rule fdiv_eval, subst rnd_eval[of 2]) (simp_all add: rne_def huge32_def)

lemma recip_5a: "fdiv (Fin 1) (Fin (15 / 2)) = Fin (8947849 / 67108864)"
  by (rule fdiv_eval, subst rnd_eval[of "- 3"]) (simp_all add: rne_def huge32_def)

lemma recip_5b: "fdiv (Fin 1) (Fin (8947849 / 67108864)) = Fin (15728639 / 2097152)"
  by (rule fdiv_eval, subst rnd_eval[of 2]) (simp_all add: rne_def huge32_def)

lemma recip_6a: "fdiv (Fin 1) (Fin 8) = Fin (1 / 8)"
  by (rule fdiv_eval, subst rnd_eval[of "- 3"]) (simp_all add: rne_def huge32_def)

lemma recip_6b: "fdiv (Fin 1) (Fin (1 / 8)) = Fin 8"
  by (rule fdiv_eval, subst rnd_eval[of 3]) (simp_all add: rne_def huge32_def)

lemma search_ceilings:
  assumes "quant_max \<in> {Fin 5, Fin 5.5, Fin 6, Fin 6.5, Fin 7, Fin 7.5, Fin 8}"
  shows "fle (fdiv (Fin 1) (fdiv (Fin 1) quant_max)) quant_max"
  using assms by (auto simp add: fle_def recip_0a recip_0b recip_1a recip_1b recip_2a recip_2b recip_3a recip_3b recip_4a recip_4b recip_5a recip_5b recip_6a recip_6b)

lemma wit_a: "fmul (Fin (16760439 / 16777216)) (Fin 5) = Fin (5237637 / 1048576)"
  by (rule fmul_eval, subst rnd_eval[of 2]) (simp_all add: rne_def huge32_def)

lemma wit_b: "fdiv (Fin 1) (Fin 1) = Fin 1"
  by (rule fdiv_eval, subst rnd_eval[of 0]) (simp_all add: rne_def huge32_def)

lemma rnd_5: "rnd 5 = 5"
  by (subst rnd_eval[of 2]) (simp_all add: rne_def)

lemma cx_a: "fmul (Fin (16760439 / 16777216)) (Fin (61 / 16)) = Fin (15974793 / 4194304)"
  by (rule fmul_eval, subst rnd_eval[of 1]) (simp_all add: rne_def huge32_def)

lemma cx_b: "fadd (Fin 0) (Fin 1) = Fin 1"
  by (rule fadd_eval, subst rnd_eval[of 0]) (simp_all add: rne_def huge32_def)

lemma cx_c: "fdiv (Fin 10) (Fin 1) = Fin 10"
  by (rule fdiv_eval, subst rnd_eval[of 3]) (simp_all add: rne_def huge32_def)

lemma cx_d: "fsub (Fin 1) (Fin 10) = Fin (- 9)"
  by (rule fsub_eval, subst rnd_eval[of 3]) (simp_all add: rne_def huge32_def)

lemma cx_e: "fdiv (Fin 1) (Fin (61 / 16)) = Fin (4400581 / 16777216)"
  by (rule fdiv_eval, subst rnd_eval[of "- 2"]) (simp_all add: rne_def huge32_def)

lemma cx_f: "fdiv (Fin 1) (Fin (4400581 / 16777216)) = Fin (15990785 / 4194304)"
  by (rule fdiv_eval, subst rnd_eval[of 1]) (simp_all add: rne_def huge32_def)

lemma cx_h: "fdiv (Fin 1) (Fin (2 powi (- 140))) = PInf"
proof -
  have "(1::real) / 2 powi (- 140) = 2 ^ 140" by (simp add: power_int_minus field_simps)
  moreover have "rnd (2 ^ 140) = 2 ^ 140" by (subst rnd_eval[of 140]) (simp_all add: rne_def)
  ultimately have "pack False (1 / 2 powi (- 140)) = PInf" by (simp add: pack_def huge32_def)
  then show ?thesis by (simp add: fdiv_def)
qed

text \<open>
  C10. For every \<open>q\<close> and every finite binary32 ceiling \<open>quant_max > 0\<close>: when
  \<open>q \<ge> 0.999f * quant_max\<close>, AdjustQuantVal returns false and leaves \<open>q\<close> as it
  was; otherwise, for every \<open>d\<close> and \<open>factor\<close>, it returns true and the new value
  \<open>q'\<close> satisfies \<open>0 \<le> q' \<le> 1.0f / (1.0f / quant_max)\<close>, the ceiling after the
  rounding of two reciprocals; this bound is at most \<open>quant_max\<close> for the ceilings
  \<open>5, 5.5, \<dots>, 8\<close> that the search passes; and \<open>0 < q'\<close> when \<open>q > 0\<close>, \<open>d \<ge> 0\<close>,
  \<open>factor \<ge> 0\<close> and \<open>1.0f / q\<close> does not overflow.
\<close>

theorem AdjustQuantVal_ceiling:
  assumes "is_f32 quant_max" "finite32 quant_max" "flt (Fin 0) quant_max"
  shows "(fge q (fmul (lit 0.999) quant_max) \<longrightarrow>
            AdjustQuantVal q d factor quant_max = (False, q)) \<and>
         (\<not> fge q (fmul (lit 0.999) quant_max) \<longrightarrow>
            fst (AdjustQuantVal q d factor quant_max) = True \<and>
            fle (Fin 0) (snd (AdjustQuantVal q d factor quant_max)) \<and>
            fle (snd (AdjustQuantVal q d factor quant_max)) (fdiv (Fin 1) (fdiv (Fin 1) quant_max)) \<and>
            (quant_max \<in> {Fin 5, Fin 5.5, Fin 6, Fin 6.5, Fin 7, Fin 7.5, Fin 8} \<longrightarrow>
               fle (snd (AdjustQuantVal q d factor quant_max)) quant_max) \<and>
            (flt (Fin 0) q \<and> fle (Fin 0) d \<and> fle (Fin 0) factor \<and> finite32 (fdiv (Fin 1) q) \<longrightarrow>
               flt (Fin 0) (snd (AdjustQuantVal q d factor quant_max))))"
proof (intro conjI impI)
  assume "fge q (fmul (lit 0.999) quant_max)"
  then show "AdjustQuantVal q d factor quant_max = (False, q)"
    by (simp add: AdjustQuantVal_def)
next
  assume n: "\<not> fge q (fmul (lit 0.999) quant_max)"
  from assms obtain M where M: "quant_max = Fin M" "0 < M" "rnd M = M" "M < huge32"
    by (rule is_f32_pos_form)
  let ?adj = "fsub (fdiv (Fin 1) q) (fdiv factor (fadd d (Fin 1)))"
  let ?m = "fdiv (Fin 1) quant_max"
  have eq: "AdjustQuantVal q d factor quant_max = (True, fdiv (Fin 1) (std_max ?m ?adj))"
    by (rule AdjustQuantVal_adjusts[OF n])
  have m: "?m \<noteq> NaN" "0 < rank ?m" "is_f32 ?m"
    using recip_ceiling[OF M(2,4)] by (simp_all add: M(1))
  show "fst (AdjustQuantVal q d factor quant_max) = True" by (simp add: eq)
  show "fle (Fin 0) (snd (AdjustQuantVal q d factor quant_max))"
    unfolding eq snd_conv by (rule recip_max(1)[OF m]) simp
  show b: "fle (snd (AdjustQuantVal q d factor quant_max)) (fdiv (Fin 1) (fdiv (Fin 1) quant_max))"
    unfolding eq snd_conv by (rule recip_max(2)[OF m]) simp
  {
    assume "quant_max \<in> {Fin 5, Fin 5.5, Fin 6, Fin 6.5, Fin 7, Fin 7.5, Fin 8}"
    then have "fle (fdiv (Fin 1) (fdiv (Fin 1) quant_max)) quant_max" by (rule search_ceilings)
    with b show "fle (snd (AdjustQuantVal q d factor quant_max)) quant_max" by (rule fle_trans)
  }
  {
    assume "flt (Fin 0) q \<and> fle (Fin 0) d \<and> fle (Fin 0) factor \<and> finite32 (fdiv (Fin 1) q)"
    then show "flt (Fin 0) (snd (AdjustQuantVal q d factor quant_max))"
      using AdjustQuantVal_positive[OF M(2,3,4), of q d factor] n by (simp add: M(1))
  }
qed

theorem AdjustQuantVal_ceiling_witness:
  "is_f32 (Fin 5) \<and> finite32 (Fin 5) \<and> flt (Fin 0) (Fin 5) \<and>
   AdjustQuantVal (Fin 5) (Fin 0) (Fin 1) (Fin 5) = (False, Fin 5) \<and>
   fst (AdjustQuantVal (Fin 1) (Fin 0) (Fin 0.5) (Fin 5)) = True \<and>
   flt (Fin 0) (snd (AdjustQuantVal (Fin 1) (Fin 0) (Fin 0.5) (Fin 5))) \<and>
   fle (snd (AdjustQuantVal (Fin 1) (Fin 0) (Fin 0.5) (Fin 5))) (Fin 5)"
proof -
  have h: "is_f32 (Fin 5)" "finite32 (Fin 5)" "flt (Fin 0) (Fin 5)"
    by (simp_all add: rnd_5 huge32_def flt_def)
  have t: "fmul (lit 0.999) (Fin 5) = Fin (5237637 / 1048576)"
    by (simp add: lit999 wit_a)
  have a: "fge (Fin 5) (fmul (lit 0.999) (Fin 5))"
    unfolding t by (simp add: fge_def fle_def)
  have b: "\<not> fge (Fin 1) (fmul (lit 0.999) (Fin 5))"
    unfolding t by (simp add: fge_def fle_def)
  have c: "flt (Fin 0) (Fin 1) \<and> fle (Fin 0) (Fin 0) \<and> fle (Fin 0) (Fin 0.5) \<and> finite32 (fdiv (Fin 1) (Fin 1))"
    by (simp add: flt_def fle_def wit_b)
  from AdjustQuantVal_ceiling[OF h, of "Fin 5" "Fin 0" "Fin 1"] a
  have 1: "AdjustQuantVal (Fin 5) (Fin 0) (Fin 1) (Fin 5) = (False, Fin 5)" by blast
  from AdjustQuantVal_ceiling[OF h, of "Fin 1" "Fin 0" "Fin 0.5"] b c
  have 2: "fst (AdjustQuantVal (Fin 1) (Fin 0) (Fin 0.5) (Fin 5)) = True"
    "flt (Fin 0) (snd (AdjustQuantVal (Fin 1) (Fin 0) (Fin 0.5) (Fin 5)))"
    "fle (snd (AdjustQuantVal (Fin 1) (Fin 0) (Fin 0.5) (Fin 5))) (Fin 5)"
    by simp_all
  from h 1 2 show ?thesis by blast
qed

text \<open>
  The ceiling itself is not a bound for every \<open>quant_max\<close>, and the new value can
  be zero: at \<open>quant_max = 3.8125\<close> the two reciprocals round to
  \<open>3.8125 + 2^-22\<close>, and for \<open>q = 2^-140\<close> the reciprocal \<open>1.0f / q\<close> is infinite.
\<close>

theorem AdjustQuantVal_above_ceiling:
  "flt (Fin 0) (Fin 1) \<and> flt (Fin 0) (Fin 3.8125) \<and> fle (Fin 0) (Fin 0) \<and> fle (Fin 0) (Fin 10) \<and>
   \<not> fge (Fin 1) (fmul (lit 0.999) (Fin 3.8125)) \<and>
   AdjustQuantVal (Fin 1) (Fin 0) (Fin 10) (Fin 3.8125) = (True, Fin (15990785 / 2 ^ 22)) \<and>
   \<not> fle (Fin (15990785 / 2 ^ 22)) (Fin 3.8125) \<and>
   flt (Fin 0) (Fin (2 powi (- 140))) \<and> flt (Fin 0) (Fin 5) \<and>
   \<not> fge (Fin (2 powi (- 140))) (fmul (lit 0.999) (Fin 5)) \<and>
   AdjustQuantVal (Fin (2 powi (- 140))) (Fin 0) (Fin 0) (Fin 5) = (True, Fin 0) \<and>
   \<not> flt (Fin 0) (Fin 0)"
proof -
  have t: "fmul (lit 0.999) (Fin 3.8125) = Fin (15974793 / 4194304)"
    by (simp add: lit999 cx_a)
  have n: "\<not> fge (Fin 1) (fmul (lit 0.999) (Fin 3.8125))"
    unfolding t by (simp add: fge_def fle_def)
  have v: "AdjustQuantVal (Fin 1) (Fin 0) (Fin 10) (Fin 3.8125) = (True, Fin (15990785 / 2 ^ 22))"
    unfolding AdjustQuantVal_adjusts[OF n]
    by (simp add: wit_b cx_b cx_c cx_d cx_e cx_f std_max_def flt_def)
  have t5: "fmul (lit 0.999) (Fin 5) = Fin (5237637 / 1048576)"
    by (simp add: lit999 wit_a)
  have p: "(0::real) < 2 powi (- 140)" "(2::real) powi (- 140) < 1" by (simp_all add: power_int_minus)
  have n5: "\<not> fge (Fin (2 powi (- 140))) (fmul (lit 0.999) (Fin 5))"
    unfolding t5 using p by (simp add: fge_def fle_def)
  have v5: "AdjustQuantVal (Fin (2 powi (- 140))) (Fin 0) (Fin 0) (Fin 5) = (True, Fin 0)"
  proof -
    have z: "fdiv (Fin 0) (Fin 1) = Fin 0" by (simp add: fdiv_def pack_def zero32_def huge32_def)
    have s: "fsub PInf (Fin 0) = PInf" by (simp add: fsub_def fadd_def)
    have mx: "std_max (Fin (13421773 / 67108864)) PInf = PInf"
      by (simp add: std_max_def flt_def huge32_def)
    have r: "fdiv (Fin 1) PInf = Fin 0" by (simp add: fdiv_def zero32_def)
    show ?thesis
      unfolding AdjustQuantVal_adjusts[OF n5] by (simp only: cx_h cx_b z s recip_0a mx r)
  qed
  show ?thesis using n v n5 v5 p(1) by (simp add: flt_def fle_def)
qed

end
